theory Spec2Isabelle
  imports Main
begin

section \<open>JavaScript values\<close>

text \<open>
  The values that reach the broker of \<^verbatim>\<open>src/Broker.js\<close>: primitives, functions, the
  \<^verbatim>\<open>Error\<close> objects the code creates or receives, and the two payload objects it passes to
  its own events (\<^verbatim>\<open>{event, callback}\<close> and \<^verbatim>\<open>{event, callback, error}\<close>).

  A function value is one of
  \<^item> \<open>User i\<close>: a function written by a caller, known by its identity \<open>i\<close>; what it does
    when called is given by a program table (see \<open>body\<close> below);
  \<^item> \<open>Single k event callback\<close>: the closure \<^verbatim>\<open>single\<close> built by \<^verbatim>\<open>one(event, callback)\<close>;
  \<^item> \<open>Unsub k event callback\<close>: the closure \<^verbatim>\<open>() => this.off(event, callback)\<close> returned
    by \<^verbatim>\<open>on(event, callback)\<close>.
  Each closure creation yields a new function identity; \<open>k\<close> is the number of closures the
  broker had created before.

  \<open>VErrorOf v\<close> is the object \<^verbatim>\<open>new Error(v)\<close>.
\<close>

datatype val =
    VUndefined
  | VNull
  | VBool bool
  | VNum int
  | VStr string
  | VFn fn
  | VTypeError string
  | VError string
  | VErrorOf val
  | Payload val val
  | Failure val val val
and fn =
    User nat
  | Single nat val val
  | Unsub nat val val

text \<open>The value of \<^verbatim>\<open>this\<close> inside a called function.\<close>

datatype this = ThisBroker | ThisUndefined

text \<open>A call either returns a value (\<open>Inr\<close>) or throws one (\<open>Inl\<close>).\<close>

type_synonym outcome = "val + val"

section \<open>Listener programs\<close>

text \<open>
  What a caller's function does when it is called, as far as the broker can tell: it calls
  methods of the broker, looks at what they return or throw, reads and writes variables of
  its own (numbered cells), and finally returns a value or throws one.
\<close>

datatype call =
    On val val
  | One val val
  | Off val val
  | RemoveAll val
  | Emit val "val list"

datatype body =
    Return val
  | Throw val
  | Do call "outcome \<Rightarrow> body"
  | Get nat "val \<Rightarrow> body"
  | Set nat val body

type_synonym prog = "nat \<Rightarrow> val list \<Rightarrow> body"

section \<open>The broker\<close>

text \<open>
  \<^verbatim>\<open>data.get(this)\<close> holds \<^verbatim>\<open>keys\<close>, an object that gives every event name a key object
  of its own, and \<^verbatim>\<open>map\<close>, a WeakMap from key objects to listener arrays. Distinct names
  have distinct key objects, so the two together are a map from event names to arrays.
  The arrays are only ever produced by lodash's \<^verbatim>\<open>concat\<close>, \<^verbatim>\<open>uniq\<close> and \<^verbatim>\<open>without\<close>, each
  of which builds a new array, and no array is handed to a listener, so an array is a list.
  Only values that passed \<^verbatim>\<open>isFunction\<close> are stored.

  The other fields record what happened, for the statements below:
  \<^item> \<open>closures\<close>: how many closures \<^verbatim>\<open>on\<close> and \<^verbatim>\<open>one\<close> have created;
  \<^item> \<open>emits\<close>: how many calls of \<^verbatim>\<open>emit\<close> have passed validation; the \<open>n\<close>-th is round \<open>n\<close>;
  \<^item> \<open>trace\<close>: every emission and every function call, in order;
  \<^item> \<open>cells\<close>: the variables of the callers' functions.
\<close>

datatype entry =
    Emitted nat string "val list"
  | Called "nat option" fn this "val list"

record broker =
  registry :: "string \<rightharpoonup> fn list"
  closures :: nat
  emits :: nat
  trace :: "entry list"
  cells :: "nat \<Rightarrow> val"

definition new_broker :: broker where
  "new_broker = \<lparr>registry = Map.empty, closures = 0, emits = 0, trace = [],
     cells = (\<lambda>_. VUndefined)\<rparr>"

type_synonym step = "broker \<Rightarrow> (outcome \<times> broker) option"

type_synonym fire = "val \<Rightarrow> val list \<Rightarrow> step"

definition EVENT_ERROR :: string where
  "EVENT_ERROR = ''Parameter `event` must be a non-empty string.''"

definition CALLBACK_ERROR :: string where
  "CALLBACK_ERROR = ''Parameter `callback` must be a function.''"

definition NOT_A_FUNCTION :: string where
  "NOT_A_FUNCTION = ''callback is not a function''"

definition ERROR :: string where "ERROR = ''error''"
definition ADDED :: string where "ADDED = ''listenerAdded''"
definition REMOVED :: string where "REMOVED = ''listenerRemoved''"

subsection \<open>lodash\<close>

text \<open>
  The characters \<^verbatim>\<open>\s\<close> matches among the code points below 256: tab, line feed,
  vertical tab, form feed, carriage return, space and no-break space.
\<close>

definition is_space :: "char \<Rightarrow> bool" where
  "is_space c \<longleftrightarrow> (of_char c :: nat) \<in> {9, 10, 11, 12, 13, 32, 160}"

definition trim :: "string \<Rightarrow> string" where
  "trim s = rev (dropWhile is_space (rev (dropWhile is_space s)))"

abbreviation isEmpty :: "'a list \<Rightarrow> bool" where
  "isEmpty xs \<equiv> xs = []"

fun isString :: "val \<Rightarrow> bool" where
  "isString (VStr s) = True"
| "isString _ = False"

fun isFunction :: "val \<Rightarrow> bool" where
  "isFunction (VFn f) = True"
| "isFunction _ = False"

fun isError :: "val \<Rightarrow> bool" where
  "isError (VTypeError m) = True"
| "isError (VError m) = True"
| "isError (VErrorOf v) = True"
| "isError _ = False"

text \<open>
  \<^verbatim>\<open>uniq\<close> keeps the first occurrence of every element. \<open>concat_value\<close> is \<^verbatim>\<open>concat\<close> given an
  array and one value that is not an array, and \<^verbatim>\<open>without\<close> takes out every occurrence of a
  value; each of the three returns a new array.
\<close>

primrec uniq_from :: "'a list \<Rightarrow> 'a list \<Rightarrow> 'a list" where
  "uniq_from seen [] = seen"
| "uniq_from seen (x # xs) =
     (if x \<in> set seen then uniq_from seen xs else uniq_from (seen @ [x]) xs)"

definition uniq :: "'a list \<Rightarrow> 'a list" where
  "uniq xs = uniq_from [] xs"

definition concat_value :: "'a list \<Rightarrow> 'a \<Rightarrow> 'a list" where
  "concat_value xs x = xs @ [x]"

definition without :: "'a list \<Rightarrow> 'a \<Rightarrow> 'a list" where
  "without xs x = filter (\<lambda>y. y \<noteq> x) xs"

text \<open>
  \<^verbatim>\<open>forEach\<close> calls the iteratee on each element in turn and stops early when it returns
  \<^verbatim>\<open>false\<close>; an exception of the iteratee ends the loop and reaches the caller.
\<close>

fun forEach :: "'a list \<Rightarrow> ('a \<Rightarrow> step) \<Rightarrow> step" where
  "forEach [] iteratee s = Some (Inr VUndefined, s)"
| "forEach (x # xs) iteratee s =
     (case iteratee x s of
        None \<Rightarrow> None
      | Some (Inl e, s') \<Rightarrow> Some (Inl e, s')
      | Some (Inr v, s') \<Rightarrow>
          if v = VBool False then Some (Inr VUndefined, s') else forEach xs iteratee s')"

text \<open>
  \<^verbatim>\<open>attempt(func)\<close> is
  \<^verbatim>\<open>try { return func(); } catch (e) { return isError(e) ? e : new Error(e); }\<close>.
\<close>

definition attempt :: "step \<Rightarrow> broker \<Rightarrow> (val \<times> broker) option" where
  "attempt func s =
     (case func s of
        None \<Rightarrow> None
      | Some (Inr v, s') \<Rightarrow> Some (v, s')
      | Some (Inl e, s') \<Rightarrow> Some (if isError e then e else VErrorOf e, s'))"

subsection \<open>Utility methods\<close>

fun name_of :: "val \<Rightarrow> string" where
  "name_of (VStr s) = s"
| "name_of _ = []"

definition isValidEvent :: "val \<Rightarrow> bool" where
  "isValidEvent event \<longleftrightarrow> isString event \<and> \<not> isEmpty (trim (name_of event))"

definition isValidCallback :: "val \<Rightarrow> bool" where
  "isValidCallback callback = isFunction callback"

text \<open>\<open>Some e\<close>: the call throws \<open>e\<close>.\<close>

definition throwIfNot :: "(val \<Rightarrow> bool) \<Rightarrow> val \<Rightarrow> string \<Rightarrow> val option" where
  "throwIfNot fn arg msg = (if \<not> fn arg then Some (VTypeError msg) else None)"

fun fn_of :: "val \<Rightarrow> fn" where
  "fn_of (VFn f) = f"
| "fn_of _ = User 0"

text \<open>\<^verbatim>\<open>info(ctx, event).listeners\<close>, that is \<^verbatim>\<open>map.get(key) || []\<close>.\<close>

definition info :: "broker \<Rightarrow> string \<Rightarrow> fn list" where
  "info s event = (case registry s event of None \<Rightarrow> [] | Some listeners \<Rightarrow> listeners)"

subsection \<open>Methods\<close>

text \<open>
  Every method below takes \<open>fire\<close>, the meaning of \<^verbatim>\<open>this.emit\<close> (alias \<^verbatim>\<open>this.fire\<close>)
  for the calls nested in it. A result \<open>None\<close> means that the nesting of emissions went
  deeper than the bound given to \<open>emit\<close> below.
\<close>

definition on :: "fire \<Rightarrow> val \<Rightarrow> val \<Rightarrow> step" where
  "on fire event callback s =
     (case throwIfNot isValidEvent event EVENT_ERROR of
        Some e \<Rightarrow> Some (Inl e, s)
      | None \<Rightarrow>
     (case throwIfNot isValidCallback callback CALLBACK_ERROR of
        Some e \<Rightarrow> Some (Inl e, s)
      | None \<Rightarrow>
     (let listeners = info s (name_of event);
          s1 = s\<lparr>registry := (registry s)(name_of event \<mapsto>
                  uniq (concat_value listeners (fn_of callback)))\<rparr>
      in case fire (VStr ADDED) [Payload event callback] s1 of
           None \<Rightarrow> None
         | Some (Inl e, s2) \<Rightarrow> Some (Inl e, s2)
         | Some (Inr _, s2) \<Rightarrow>
             Some (Inr (VFn (Unsub (closures s2) event callback)),
                   s2\<lparr>closures := Suc (closures s2)\<rparr>))))"

text \<open>
  \<^verbatim>\<open>one\<close> (here \<open>one_listener\<close>) checks nothing itself: it builds \<^verbatim>\<open>single\<close> and hands it to
  \<^verbatim>\<open>on\<close>.
\<close>

definition one_listener :: "fire \<Rightarrow> val \<Rightarrow> val \<Rightarrow> step" where
  "one_listener fire event callback s =
     (let single = Single (closures s) event callback
      in on fire event (VFn single) (s\<lparr>closures := Suc (closures s)\<rparr>))"

definition off :: "fire \<Rightarrow> val \<Rightarrow> val \<Rightarrow> step" where
  "off fire event callback s =
     (case throwIfNot isValidEvent event EVENT_ERROR of
        Some e \<Rightarrow> Some (Inl e, s)
      | None \<Rightarrow>
     (case throwIfNot isValidCallback callback CALLBACK_ERROR of
        Some e \<Rightarrow> Some (Inl e, s)
      | None \<Rightarrow>
     (let listeners = info s (name_of event);
          updated = without listeners (fn_of callback)
      in if length listeners \<noteq> length updated
         then (let s1 = (if isEmpty updated
                         then s\<lparr>registry := (registry s)(name_of event := None)\<rparr>
                         else s\<lparr>registry := (registry s)(name_of event \<mapsto> updated)\<rparr>)
               in case fire (VStr REMOVED) [Payload event callback] s1 of
                    None \<Rightarrow> None
                  | Some (Inl e, s2) \<Rightarrow> Some (Inl e, s2)
                  | Some (Inr _, s2) \<Rightarrow> Some (Inr VUndefined, s2))
         else Some (Inr VUndefined, s))))"

definition removeAllListeners :: "fire \<Rightarrow> val \<Rightarrow> step" where
  "removeAllListeners fire event s =
     (case throwIfNot isValidEvent event EVENT_ERROR of
        Some e \<Rightarrow> Some (Inl e, s)
      | None \<Rightarrow>
          forEach (info s (name_of event)) (\<lambda>callback. off fire event (VFn callback)) s)"

subsection \<open>Calling a function\<close>

definition perform :: "fire \<Rightarrow> call \<Rightarrow> step" where
  "perform fire c s =
     (case c of
        On event callback \<Rightarrow> on fire event callback s
      | One event callback \<Rightarrow> one_listener fire event callback s
      | Off event callback \<Rightarrow> off fire event callback s
      | RemoveAll event \<Rightarrow> removeAllListeners fire event s
      | Emit event args \<Rightarrow> fire event args s)"

primrec exec :: "fire \<Rightarrow> body \<Rightarrow> step" where
  "exec fire (Return v) = (\<lambda>s. Some (Inr v, s))"
| "exec fire (Throw e) = (\<lambda>s. Some (Inl e, s))"
| "exec fire (Do c k) =
     (\<lambda>s. case perform fire c s of
             None \<Rightarrow> None
           | Some (r, s') \<Rightarrow> exec fire (k r) s')"
| "exec fire (Get i k) = (\<lambda>s. exec fire (k (cells s i)) s)"
| "exec fire (Set i v b) = (\<lambda>s. exec fire b (s\<lparr>cells := (cells s)(i := v)\<rparr>))"

text \<open>
  \<open>invoke fire P tag this f args\<close> calls the function \<open>f\<close>; the call is written to the trace
  with \<open>tag\<close>, which is \<open>Some r\<close> when round \<open>r\<close> of \<^verbatim>\<open>emit\<close> makes the call.

  \<^verbatim>\<open>single\<close> is \<^verbatim>\<open>flow(() => callback(...arguments), () => this.off(event, single))\<close>: it
  calls the first function, and when that has returned, the second. Both are arrow
  functions, so \<^verbatim>\<open>arguments\<close> is the argument list of the enclosing \<^verbatim>\<open>one(event, callback)\<close>
  (\<^verbatim>\<open>callback.apply(undefined, _arguments)\<close> in \<^verbatim>\<open>index.js\<close>), whatever \<^verbatim>\<open>single\<close> itself was
  called with. Calling a callback that is not a function throws a \<^verbatim>\<open>TypeError\<close>, whose
  message is the engine's.
\<close>

fun invoke :: "fire \<Rightarrow> prog \<Rightarrow> nat option \<Rightarrow> this \<Rightarrow> fn \<Rightarrow> val list \<Rightarrow> step" where
  "invoke fire P tag this (User i) args s =
     exec fire (P i args) (s\<lparr>trace := trace s @ [Called tag (User i) this args]\<rparr>)"
| "invoke fire P tag this (Single k event (VFn g)) args s =
     (case invoke fire P None ThisUndefined g [event, VFn g]
             (s\<lparr>trace := trace s @ [Called tag (Single k event (VFn g)) this args]\<rparr>) of
        None \<Rightarrow> None
      | Some (Inl e, s1) \<Rightarrow> Some (Inl e, s1)
      | Some (Inr _, s1) \<Rightarrow> off fire event (VFn (Single k event (VFn g))) s1)"
| "invoke fire P tag this (Single k event callback) args s =
     Some (Inl (VTypeError NOT_A_FUNCTION),
           s\<lparr>trace := trace s @ [Called tag (Single k event callback) this args]\<rparr>)"
| "invoke fire P tag this (Unsub k event callback) args s =
     off fire event callback
       (s\<lparr>trace := trace s @ [Called tag (Unsub k event callback) this args]\<rparr>)"

subsection \<open>Emission\<close>

text \<open>
  \<^verbatim>\<open>announce\<close> calls one listener, \<^verbatim>\<open>attempt(bind(callback, this, ...args))\<close>, with the broker
  as \<^verbatim>\<open>this\<close> and the emitted arguments, and emits \<^verbatim>\<open>error\<close> when what \<^verbatim>\<open>attempt\<close> returns is
  an \<^verbatim>\<open>Error\<close>. \<^verbatim>\<open>emit\<close> runs \<^verbatim>\<open>announce\<close> over the array that \<^verbatim>\<open>info\<close> returned when the
  call began.
\<close>

definition announce :: "fire \<Rightarrow> prog \<Rightarrow> nat \<Rightarrow> val \<Rightarrow> val list \<Rightarrow> fn \<Rightarrow> step" where
  "announce fire P round event args callback s =
     (case attempt (invoke fire P (Some round) ThisBroker callback args) s of
        None \<Rightarrow> None
      | Some (error, s') \<Rightarrow>
          if isError error
          then (case fire (VStr ERROR) [Failure event (VFn callback) error] s' of
                  None \<Rightarrow> None
                | Some (Inl e, s2) \<Rightarrow> Some (Inl e, s2)
                | Some (Inr _, s2) \<Rightarrow> Some (Inr VUndefined, s2))
          else Some (Inr VUndefined, s'))"

definition emit_body :: "fire \<Rightarrow> prog \<Rightarrow> val \<Rightarrow> val list \<Rightarrow> step" where
  "emit_body fire P event args s =
     (case throwIfNot isValidEvent event EVENT_ERROR of
        Some e \<Rightarrow> Some (Inl e, s)
      | None \<Rightarrow>
          (case forEach (info s (name_of event)) (announce fire P (emits s) event args)
                  (s\<lparr>emits := Suc (emits s),
                     trace := trace s @ [Emitted (emits s) (name_of event) args]\<rparr>) of
             None \<Rightarrow> None
           | Some (Inl e, s') \<Rightarrow> Some (Inl e, s')
           | Some (Inr _, s') \<Rightarrow> Some (Inr VUndefined, s')))"

text \<open>
  \<open>emit n\<close> is \<^verbatim>\<open>emit\<close> with emissions nested at most \<open>n\<close> deep: an emission made by a
  listener, or by \<^verbatim>\<open>on\<close>, \<^verbatim>\<open>off\<close> or \<^verbatim>\<open>announce\<close> on behalf of one, counts one level.
  Listeners may emit without end (a listener of \<^verbatim>\<open>error\<close> that always throws does), in which
  case no bound is enough and the result is \<open>None\<close> for every \<open>n\<close>.
\<close>

primrec emit :: "nat \<Rightarrow> prog \<Rightarrow> fire" where
  "emit 0 P = (\<lambda>event args s. None)"
| "emit (Suc n) P = emit_body (emit n P) P"

text \<open>The methods as a caller sees them, under their aliases.\<close>

definition subscribe :: "nat \<Rightarrow> prog \<Rightarrow> val \<Rightarrow> val \<Rightarrow> step" where
  "subscribe n P = on (emit n P)"

definition subscribeOnce :: "nat \<Rightarrow> prog \<Rightarrow> val \<Rightarrow> val \<Rightarrow> step" where
  "subscribeOnce n P = one_listener (emit n P)"

definition unsubscribe :: "nat \<Rightarrow> prog \<Rightarrow> val \<Rightarrow> val \<Rightarrow> step" where
  "unsubscribe n P = off (emit n P)"

definition unsubscribeAll :: "nat \<Rightarrow> prog \<Rightarrow> val \<Rightarrow> step" where
  "unsubscribeAll n P = removeAllListeners (emit n P)"

section \<open>Observing the broker\<close>

text \<open>
  An entry is \<open>fresh m\<close> when it belongs to round \<open>m\<close> or a later one; \<open>grows s s'\<close> says that
  \<open>s'\<close> has the trace of \<open>s\<close> followed by entries of rounds that had not begun in \<open>s\<close>.
  \<open>round_calls r tr\<close> are the calls that round \<open>r\<close> of \<^verbatim>\<open>emit\<close> made itself, and \<open>since s s'\<close>
  is what the trace gained between two states. \<open>sound fire\<close>: whenever \<open>fire\<close> returns, the
  trace has grown, and nothing was thrown if the event name is valid.
\<close>

fun fresh :: "nat \<Rightarrow> entry \<Rightarrow> bool" where
  "fresh m (Emitted r e a) = (m \<le> r)"
| "fresh m (Called None f t a) = True"
| "fresh m (Called (Some r) f t a) = (m \<le> r)"

definition grows :: "broker \<Rightarrow> broker \<Rightarrow> bool" where
  "grows s s' \<longleftrightarrow>
     emits s \<le> emits s' \<and> (\<exists>new. trace s' = trace s @ new \<and> list_all (fresh (emits s)) new)"

fun call_of :: "nat \<Rightarrow> entry \<Rightarrow> bool" where
  "call_of r (Called (Some r') f t a) = (r' = r)"
| "call_of r _ = False"

definition round_calls :: "nat \<Rightarrow> entry list \<Rightarrow> entry list" where
  "round_calls r tr = filter (call_of r) tr"

definition since :: "broker \<Rightarrow> broker \<Rightarrow> entry list" where
  "since s s' = drop (length (trace s)) (trace s')"

definition sound :: "fire \<Rightarrow> bool" where
  "sound fire \<longleftrightarrow>
     (\<forall>event args s r s'. fire event args s = Some (r, s') \<longrightarrow>
        grows s s' \<and> (isValidEvent event \<longrightarrow> r = Inr VUndefined))"

text \<open>
  \<open>unique_listeners s\<close>: the listeners of every event are pairwise different.
  \<open>keeps fire\<close>: \<open>fire\<close> leaves them so.
\<close>

definition unique_listeners :: "broker \<Rightarrow> bool" where
  "unique_listeners s \<longleftrightarrow> (\<forall>event. distinct (info s event))"

definition keeps :: "fire \<Rightarrow> bool" where
  "keeps fire \<longleftrightarrow>
     (\<forall>event args s r s'. fire event args s = Some (r, s') \<longrightarrow>
        unique_listeners s \<longrightarrow> unique_listeners s')"

text \<open>
  The events the broker emits itself. A program is tame when it subscribes nothing to them
  and emits no other event; a broker is unobserved when nothing is subscribed to them.
  \<open>responsive fire\<close>: on an unobserved broker \<open>fire\<close> comes back from these events and leaves
  the broker unobserved.
\<close>

definition lifecycle :: "string \<Rightarrow> bool" where
  "lifecycle event \<longleftrightarrow> event = ERROR \<or> event = ADDED \<or> event = REMOVED"

fun tame_call :: "call \<Rightarrow> bool" where
  "tame_call (On event callback) = (\<not> lifecycle (name_of event))"
| "tame_call (One event callback) = (\<not> lifecycle (name_of event))"
| "tame_call (Off event callback) = True"
| "tame_call (RemoveAll event) = True"
| "tame_call (Emit event args) = lifecycle (name_of event)"

primrec tame :: "body \<Rightarrow> bool" where
  "tame (Return v) = True"
| "tame (Throw e) = True"
| "tame (Do c k) = (tame_call c \<and> (\<forall>r. tame (k r)))"
| "tame (Get i k) = (\<forall>v. tame (k v))"
| "tame (Set i v b) = tame b"

definition tame_prog :: "prog \<Rightarrow> bool" where
  "tame_prog P \<longleftrightarrow> (\<forall>i args. tame (P i args))"

definition unobserved :: "broker \<Rightarrow> bool" where
  "unobserved s \<longleftrightarrow> info s ERROR = [] \<and> info s ADDED = [] \<and> info s REMOVED = []"

definition responsive :: "fire \<Rightarrow> bool" where
  "responsive fire \<longleftrightarrow>
     (\<forall>event args s. unobserved s \<longrightarrow> lifecycle (name_of event) \<longrightarrow>
        (\<exists>r s'. fire event args s = Some (r, s') \<and> unobserved s'))"


fun is_removal :: "entry \<Rightarrow> bool" where
  "is_removal (Emitted r event args) = (event = REMOVED)"
| "is_removal (Called tag f this args) = False"

definition removals :: "entry list \<Rightarrow> entry list" where
  "removals tr = filter is_removal tr"

text \<open>\<open>below fire fire'\<close>: whatever \<open>fire\<close> returns, \<open>fire'\<close> returns too.\<close>

definition below :: "fire \<Rightarrow> fire \<Rightarrow> bool" where
  "below fire fire' \<longleftrightarrow>
     (\<forall>event args s x. fire event args s = Some x \<longrightarrow> fire' event args s = Some x)"

section \<open>Scenarios\<close>

text \<open>\<open>after op s\<close>: the broker once the call \<open>op\<close> has returned or thrown.\<close>

definition after :: "step \<Rightarrow> broker \<Rightarrow> broker" where
  "after op s = (case op s of Some (r, s') \<Rightarrow> s' | None \<Rightarrow> s)"

text \<open>\<open>returns op s\<close>: the call \<open>op\<close> comes back within the bound on nesting.\<close>

definition returns :: "step \<Rightarrow> broker \<Rightarrow> bool" where
  "returns op s = (case op s of None \<Rightarrow> False | Some x \<Rightarrow> True)"

text \<open>The third listener removes itself when called.\<close>

definition self_removing :: prog where
  "self_removing i args =
     (if i = 3 then Do (Off (VStr ''event'') (VFn (User 3))) (\<lambda>r. Return VUndefined)
      else Return VUndefined)"

text \<open>Five listeners registered on one event of a new broker.\<close>

definition five_listeners :: "prog \<Rightarrow> broker" where
  "five_listeners P =
     foldl (\<lambda>s i. after (subscribe 1 P (VStr ''event'') (VFn (User i))) s)
       new_broker [1, 2, 3, 4, 5]"

text \<open>Listeners that return at once.\<close>

definition quiet :: prog where
  "quiet i args = Return VUndefined"

text \<open>The same listener subscribed twice to one event of a new broker.\<close>

definition twice :: broker where
  "twice = after (subscribe 1 quiet (VStr ''event'') (VFn (User 1)))
     (after (subscribe 1 quiet (VStr ''event'') (VFn (User 1))) new_broker)"



text \<open>Two listeners on one event of a new broker.\<close>

definition two_listeners :: broker where
  "two_listeners = after (subscribe 1 quiet (VStr ''event'') (VFn (User 2)))
     (after (subscribe 1 quiet (VStr ''event'') (VFn (User 1))) new_broker)"






text \<open>
  A callback that throws the first time it is called and returns from then on, subscribed
  with \<^verbatim>\<open>one\<close>.
\<close>

definition flaky :: prog where
  "flaky i args =
     Get 0 (\<lambda>v. if v = VUndefined then Set 0 (VBool True) (Throw (VError ''first call''))
                else Return VUndefined)"

definition flaky_once :: broker where
  "flaky_once = after (subscribeOnce 1 flaky (VStr ''event'') (VFn (User 1))) new_broker"

text \<open>A callback that returns, subscribed with \<^verbatim>\<open>one\<close>.\<close>

definition once_subscribed :: broker where
  "once_subscribed = after (subscribeOnce 1 quiet (VStr ''event'') (VFn (User 1))) new_broker"

text \<open>A callback that throws whenever it is called, subscribed with \<^verbatim>\<open>one\<close>.\<close>

definition always_throwing :: prog where
  "always_throwing i args = Throw (VError ''boom'')"

definition throwing_once :: broker where
  "throwing_once =
     after (subscribeOnce 1 always_throwing (VStr ''event'') (VFn (User 1))) new_broker"

section \<open>The trace of an emission\<close>

lemma fresh_mono: "k \<le> m \<Longrightarrow> fresh m x \<Longrightarrow> fresh k x"
  by (cases "(m, x)" rule: fresh.cases) auto

lemma list_all_fresh_mono: "list_all (fresh m) xs \<Longrightarrow> k \<le> m \<Longrightarrow> list_all (fresh k) xs"
  by (induction xs) (auto intro: fresh_mono)

lemma grows_refl: "grows s s"
  by (simp add: grows_def)

lemma grows_trans:
  assumes "grows s t" and "grows t u"
  shows "grows s u"
proof -
  from assms(1) obtain n1 where 1: "emits s \<le> emits t" "trace t = trace s @ n1"
    "list_all (fresh (emits s)) n1" by (auto simp: grows_def)
  from assms(2) obtain n2 where 2: "emits t \<le> emits u" "trace u = trace t @ n2"
    "list_all (fresh (emits t)) n2" by (auto simp: grows_def)
  from 2(3) 1(1) have "list_all (fresh (emits s)) n2" by (rule list_all_fresh_mono)
  with 1 2 show ?thesis by (auto simp: grows_def)
qed

lemma grows_update [simp]:
  "grows (s\<lparr>registry := x\<rparr>) u = grows s u"
  "grows (s\<lparr>closures := y\<rparr>) u = grows s u"
  "grows (s\<lparr>cells := z\<rparr>) u = grows s u"
  "grows s (u\<lparr>registry := x\<rparr>) = grows s u"
  "grows s (u\<lparr>closures := y\<rparr>) = grows s u"
  "grows s (u\<lparr>cells := z\<rparr>) = grows s u"
  by (simp_all add: grows_def)

lemma grows_called:
  "grows (s\<lparr>trace := trace s @ [Called None f t a]\<rparr>) u \<Longrightarrow> grows s u"
  by (auto simp: grows_def)

lemma grows_emitted:
  assumes "grows (s\<lparr>emits := Suc (emits s), trace := trace s @ [Emitted (emits s) e a]\<rparr>) u"
  shows "grows s u"
proof -
  from assms obtain new where 1: "Suc (emits s) \<le> emits u"
    "trace u = trace s @ Emitted (emits s) e a # new" "list_all (fresh (Suc (emits s))) new"
    by (auto simp: grows_def)
  from 1(3) have "list_all (fresh (emits s)) new" by (rule list_all_fresh_mono) simp
  with 1 show ?thesis by (auto simp: grows_def)
qed

lemma soundD: "sound fire \<Longrightarrow> fire event args s = Some (r, s') \<Longrightarrow> grows s s'"
  by (auto simp: sound_def)

lemma on_grows:
  assumes "sound fire" and "on fire event callback s = Some (r, s')"
  shows "grows s s'"
  using assms(2)
  by (auto simp: on_def Let_def grows_refl split: option.splits sum.splits
      dest!: soundD[OF assms(1)])

lemma off_grows:
  assumes "sound fire" and "off fire event callback s = Some (r, s')"
  shows "grows s s'"
  using assms(2)
  by (auto simp: off_def Let_def grows_refl split: option.splits sum.splits if_splits
      dest!: soundD[OF assms(1)])

lemma one_grows:
  assumes "sound fire" and "one_listener fire event callback s = Some (r, s')"
  shows "grows s s'"
  using assms(2)
  by (auto simp: one_listener_def Let_def dest!: on_grows[OF assms(1)])

lemma forEach_grows:
  assumes "\<And>x s r s'. iteratee x s = Some (r, s') \<Longrightarrow> grows s s'"
  shows "forEach xs iteratee s = Some (r, s') \<Longrightarrow> grows s s'"
proof (induction xs arbitrary: s)
  case Nil
  then show ?case by (simp add: grows_refl)
next
  case (Cons x xs)
  show ?case
  proof (cases "iteratee x s")
    case None
    with Cons.prems show ?thesis by simp
  next
    case (Some p)
    obtain o1 s1 where p: "p = (o1, s1)" by (cases p)
    from Some p have 1: "grows s s1" by (auto dest: assms)
    show ?thesis
    proof (cases "\<exists>v. o1 = Inr v \<and> v \<noteq> VBool False")
      case True
      with Cons.prems Some p have "forEach xs iteratee s1 = Some (r, s')" by auto
      then have "grows s1 s'" by (rule Cons.IH)
      with 1 show ?thesis by (rule grows_trans)
    next
      case False
      with Cons.prems Some p have "s' = s1" by (cases o1) (auto split: if_splits)
      with 1 show ?thesis by simp
    qed
  qed
qed

lemma removeAll_grows:
  assumes "sound fire" and "removeAllListeners fire event s = Some (r, s')"
  shows "grows s s'"
  using assms(2)
  by (auto simp: removeAllListeners_def grows_refl split: option.splits
      elim!: forEach_grows[rotated] dest: off_grows[OF assms(1)])

lemma perform_grows:
  assumes "sound fire" and "perform fire c s = Some (r, s')"
  shows "grows s s'"
  using assms(2)
  by (auto simp: perform_def split: call.splits
      intro: on_grows[OF assms(1)] off_grows[OF assms(1)] one_grows[OF assms(1)]
        removeAll_grows[OF assms(1)] soundD[OF assms(1)])

lemma exec_grows:
  assumes "sound fire"
  shows "exec fire b s = Some (r, s') \<Longrightarrow> grows s s'"
proof (induction b arbitrary: s)
  case (Do c k)
  from Do.prems obtain r1 s1 where 1: "perform fire c s = Some (r1, s1)"
    and 2: "exec fire (k r1) s1 = Some (r, s')"
    by (auto split: option.splits)
  from 1 have "grows s s1" by (rule perform_grows[OF assms])
  moreover from 2 have "grows s1 s'" by (rule Do.IH[OF rangeI])
  ultimately show ?case by (rule grows_trans)
next
  case (Get i k)
  then show ?case by (auto intro: Get.IH[OF rangeI])
next
  case (Set i v b)
  from Set.prems have "exec fire b (s\<lparr>cells := (cells s)(i := v)\<rparr>) = Some (r, s')"
    by simp
  then have "grows (s\<lparr>cells := (cells s)(i := v)\<rparr>) s'" by (rule Set.IH)
  then show ?case by simp
qed (auto simp: grows_refl)

lemma invoke_grows:
  "sound fire \<Longrightarrow> invoke fire P tag this f args s = Some (r, s') \<Longrightarrow>
    grows (s\<lparr>trace := trace s @ [Called tag f this args]\<rparr>) s'"
proof (induction fire P tag this f args s arbitrary: r s' rule: invoke.induct)
  case (1 fire P tag this i args s)
  then show ?case by (auto dest: exec_grows)
next
  case (2 fire P tag this k event g args s)
  let ?s0 = "s\<lparr>trace := trace s @ [Called tag (Single k event (VFn g)) this args]\<rparr>"
  from "2.prems"(2) obtain r1 s1 where
    1: "invoke fire P None ThisUndefined g [event, VFn g] ?s0 = Some (r1, s1)"
    by (auto split: option.splits)
  from "2.IH"[OF "2.prems"(1) 1] have g1: "grows ?s0 s1" by (rule grows_called)
  show ?case
  proof (cases r1)
    case (Inl e)
    with "2.prems"(2) 1 have "s' = s1" by simp
    with g1 show ?thesis by simp
  next
    case (Inr v)
    with "2.prems"(2) 1 have "off fire event (VFn (Single k event (VFn g))) s1 = Some (r, s')"
      by simp
    then have "grows s1 s'" by (rule off_grows[OF "2.prems"(1)])
    with g1 show ?thesis by (rule grows_trans)
  qed
qed (auto simp: grows_refl dest: off_grows)

lemma valid_events [simp]:
  "isValidEvent (VStr ERROR)" "isValidEvent (VStr ADDED)" "isValidEvent (VStr REMOVED)"
  by (simp_all add: isValidEvent_def ERROR_def ADDED_def REMOVED_def trim_def is_space_def)

lemma announce_grows:
  assumes "sound fire" and "announce fire P round event args f s = Some (r, s')"
  shows "grows (s\<lparr>trace := trace s @ [Called (Some round) f ThisBroker args]\<rparr>) s'
     \<and> r = Inr VUndefined"
proof -
  let ?s0 = "s\<lparr>trace := trace s @ [Called (Some round) f ThisBroker args]\<rparr>"
  from assms(2) obtain r1 s1 where
    1: "invoke fire P (Some round) ThisBroker f args s = Some (r1, s1)"
    by (auto simp: announce_def attempt_def split: option.splits)
  from invoke_grows[OF assms(1) 1] have g1: "grows ?s0 s1" .
  define error where "error = (case r1 of Inr v \<Rightarrow> v | Inl e \<Rightarrow> if isError e then e else VErrorOf e)"
  have a: "attempt (invoke fire P (Some round) ThisBroker f args) s = Some (error, s1)"
    using 1 by (auto simp: attempt_def error_def split: sum.splits)
  show ?thesis
  proof (cases "isError error")
    case False
    with assms(2) a have "s' = s1" "r = Inr VUndefined" by (auto simp: announce_def)
    with g1 show ?thesis by simp
  next
    case True
    with assms(2) a obtain r2 where
      2: "fire (VStr ERROR) [Failure event (VFn f) error] s1 = Some (r2, s')"
      by (auto simp: announce_def split: option.splits sum.splits)
    from assms(1) 2 have "grows s1 s'" "r2 = Inr VUndefined" by (auto simp: sound_def)
    with assms(2) a True 2 g1 show ?thesis
      by (auto simp: announce_def intro: grows_trans)
  qed
qed

lemma round_calls_fresh: "list_all (fresh m) xs \<Longrightarrow> r < m \<Longrightarrow> round_calls r xs = []"
proof (induction xs)
  case Nil
  then show ?case by (simp add: round_calls_def)
next
  case (Cons x xs)
  then have "fresh m x" by simp
  with Cons.prems(2) have "\<not> call_of r x"
    by (cases "(m, x)" rule: fresh.cases) auto
  with Cons show ?case by (simp add: round_calls_def)
qed

lemma round_calls_append [simp]:
  "round_calls r (xs @ ys) = round_calls r xs @ round_calls r ys"
  by (simp add: round_calls_def)

lemma forEach_announce:
  assumes "sound fire"
  shows "forEach fs (announce fire P round event args) s = Some (r, s') \<Longrightarrow> round < emits s \<Longrightarrow>
    r = Inr VUndefined \<and> emits s \<le> emits s' \<and>
    (\<exists>new. trace s' = trace s @ new \<and> list_all (fresh round) new \<and>
       round_calls round new = map (\<lambda>f. Called (Some round) f ThisBroker args) fs)"
proof (induction fs arbitrary: s)
  case Nil
  then show ?case by (simp add: round_calls_def)
next
  case (Cons f fs)
  from Cons.prems(1) obtain r1 s1 where
    1: "announce fire P round event args f s = Some (r1, s1)"
    by (auto split: option.splits)
  from announce_grows[OF assms 1] have r1: "r1 = Inr VUndefined"
    and g: "grows (s\<lparr>trace := trace s @ [Called (Some round) f ThisBroker args]\<rparr>) s1"
    by simp_all
  from g obtain n1 where n1: "emits s \<le> emits s1"
    "trace s1 = trace s @ Called (Some round) f ThisBroker args # n1"
    "list_all (fresh (emits s)) n1"
    by (auto simp: grows_def)
  from Cons.prems(1) 1 r1 have 2: "forEach fs (announce fire P round event args) s1 = Some (r, s')"
    by simp
  from n1(1) Cons.prems(2) have "round < emits s1" by simp
  from Cons.IH[OF 2 this] obtain n2 where n2: "r = Inr VUndefined" "emits s1 \<le> emits s'"
    "trace s' = trace s1 @ n2" "list_all (fresh round) n2"
    "round_calls round n2 = map (\<lambda>f. Called (Some round) f ThisBroker args) fs"
    by auto
  from n1(3) Cons.prems(2) have e: "round_calls round n1 = []" by (rule round_calls_fresh)
  from n1(3) Cons.prems(2) have f1: "list_all (fresh round) n1"
    by (auto intro: list_all_fresh_mono)
  let ?new = "Called (Some round) f ThisBroker args # n1 @ n2"
  have "trace s' = trace s @ ?new" using n1(2) n2(3) by simp
  moreover have "list_all (fresh round) ?new" using f1 n2(4) by simp
  moreover have "round_calls round ?new = map (\<lambda>f. Called (Some round) f ThisBroker args) (f # fs)"
    using e n2(5) by (simp add: round_calls_def)
  ultimately show ?case using n2(1,2) n1(1) by (intro conjI exI[of _ ?new]) auto
qed

lemma emit_body_round:
  assumes "sound fire" and "emit_body fire P event args s = Some (r, s')"
    and "isValidEvent event"
  shows "r = Inr VUndefined \<and> grows s s' \<and>
    round_calls (emits s) (since s s') =
      map (\<lambda>f. Called (Some (emits s)) f ThisBroker args) (info s (name_of event))"
proof -
  let ?s0 = "s\<lparr>emits := Suc (emits s), trace := trace s @ [Emitted (emits s) (name_of event) args]\<rparr>"
  from assms(2,3) obtain r1 where
    1: "forEach (info s (name_of event)) (announce fire P (emits s) event args) ?s0 = Some (r1, s')"
    by (auto simp: emit_body_def throwIfNot_def split: option.splits sum.splits)
  have "emits s < emits ?s0" by simp
  from forEach_announce[OF assms(1) 1 this] obtain new where n: "r1 = Inr VUndefined"
    "emits ?s0 \<le> emits s'" "trace s' = trace ?s0 @ new" "list_all (fresh (emits s)) new"
    "round_calls (emits s) new =
       map (\<lambda>f. Called (Some (emits s)) f ThisBroker args) (info s (name_of event))"
    by auto
  from assms(2,3) 1 n(1) have "r = Inr VUndefined"
    by (auto simp: emit_body_def throwIfNot_def)
  moreover have "grows s s'" using n(2,3,4) by (auto simp: grows_def)
  moreover have "since s s' = Emitted (emits s) (name_of event) args # new"
    using n(3) by (simp add: since_def)
  ultimately show ?thesis using n(5) by (simp add: round_calls_def)
qed

lemma emit_body_sound:
  assumes "sound fire"
  shows "sound (emit_body fire P)"
  unfolding sound_def
proof (intro allI impI)
  fix event args s r s'
  assume a: "emit_body fire P event args s = Some (r, s')"
  show "grows s s' \<and> (isValidEvent event \<longrightarrow> r = Inr VUndefined)"
  proof (cases "isValidEvent event")
    case True
    from emit_body_round[OF assms a True] show ?thesis by simp
  next
    case False
    with a have "s' = s" by (auto simp: emit_body_def throwIfNot_def)
    with False show ?thesis by (simp add: grows_refl)
  qed
qed

lemma emit_sound: "sound (emit n P)"
proof (induction n)
  case 0
  show ?case by (simp add: sound_def)
next
  case (Suc n)
  then show ?case by (simp add: emit_body_sound)
qed

lemma emit_round:
  assumes "emit n P event args s = Some (r, s')" and "isValidEvent event"
  shows "r = Inr VUndefined \<and> grows s s' \<and>
    round_calls (emits s) (since s s') =
      map (\<lambda>f. Called (Some (emits s)) f ThisBroker args) (info s (name_of event))"
proof (cases n)
  case 0
  with assms show ?thesis by simp
next
  case (Suc m)
  with assms(1) have "emit_body (emit m P) P event args s = Some (r, s')" by simp
  from emit_body_round[OF emit_sound this assms(2)] show ?thesis .
qed

section \<open>Uniqueness of listeners\<close>

lemma uniq_from_distinct: "distinct seen \<Longrightarrow> distinct (uniq_from seen xs)"
  by (induction xs arbitrary: seen) auto

lemma uniq_distinct: "distinct (uniq xs)"
  by (simp add: uniq_def uniq_from_distinct)

lemma without_distinct: "distinct xs \<Longrightarrow> distinct (without xs x)"
  by (simp add: without_def)

lemma unique_update [simp]:
  "unique_listeners (s\<lparr>closures := y\<rparr>) = unique_listeners s"
  "unique_listeners (s\<lparr>cells := z\<rparr>) = unique_listeners s"
  "unique_listeners (s\<lparr>trace := t\<rparr>) = unique_listeners s"
  "unique_listeners (s\<lparr>emits := n\<rparr>) = unique_listeners s"
  by (simp_all add: unique_listeners_def info_def)

lemma unique_set:
  "unique_listeners s \<Longrightarrow> distinct xs \<Longrightarrow>
   unique_listeners (s\<lparr>registry := (registry s)(e \<mapsto> xs)\<rparr>)"
  by (simp add: unique_listeners_def info_def)

lemma unique_delete:
  "unique_listeners s \<Longrightarrow> unique_listeners (s\<lparr>registry := (registry s)(e := None)\<rparr>)"
  by (simp add: unique_listeners_def info_def)

lemma keepsD:
  "keeps fire \<Longrightarrow> fire event args s = Some (r, s') \<Longrightarrow> unique_listeners s \<Longrightarrow> unique_listeners s'"
  by (auto simp: keeps_def)

lemma on_keeps:
  assumes "keeps fire" and "on fire event callback s = Some (r, s')" and "unique_listeners s"
  shows "unique_listeners s'"
  using assms(2,3)
  by (auto simp: on_def Let_def split: option.splits sum.splits
      dest!: keepsD[OF assms(1)] intro!: unique_set uniq_distinct)

lemma off_keeps:
  assumes "keeps fire" and "off fire event callback s = Some (r, s')" and "unique_listeners s"
  shows "unique_listeners s'"
proof -
  have d: "distinct (without (info s (name_of event)) (fn_of callback))"
    using assms(3) by (simp add: unique_listeners_def without_distinct)
  show ?thesis
    using assms(2,3) d
    by (auto simp: off_def Let_def split: option.splits sum.splits if_splits
        dest!: keepsD[OF assms(1)] intro!: unique_set unique_delete)
qed

lemma one_keeps:
  assumes "keeps fire" and "one_listener fire event callback s = Some (r, s')"
    and "unique_listeners s"
  shows "unique_listeners s'"
  using assms(2,3)
  by (auto simp: one_listener_def Let_def dest!: on_keeps[OF assms(1)])

lemma forEach_keeps:
  assumes "\<And>x s r s'. iteratee x s = Some (r, s') \<Longrightarrow> unique_listeners s \<Longrightarrow> unique_listeners s'"
  shows "forEach xs iteratee s = Some (r, s') \<Longrightarrow> unique_listeners s \<Longrightarrow> unique_listeners s'"
proof (induction xs arbitrary: s)
  case Nil
  then show ?case by simp
next
  case (Cons x xs)
  show ?case
  proof (cases "iteratee x s")
    case None
    with Cons.prems show ?thesis by simp
  next
    case (Some p)
    obtain o1 s1 where p: "p = (o1, s1)" by (cases p)
    from Some p Cons.prems(2) have 1: "unique_listeners s1" by (auto dest: assms)
    show ?thesis
    proof (cases "\<exists>v. o1 = Inr v \<and> v \<noteq> VBool False")
      case True
      with Cons.prems Some p have "forEach xs iteratee s1 = Some (r, s')" by auto
      from Cons.IH[OF this 1] show ?thesis .
    next
      case False
      with Cons.prems Some p have "s' = s1" by (cases o1) (auto split: if_splits)
      with 1 show ?thesis by simp
    qed
  qed
qed

lemma removeAll_keeps:
  assumes "keeps fire" and "removeAllListeners fire event s = Some (r, s')"
    and "unique_listeners s"
  shows "unique_listeners s'"
proof (cases "isValidEvent event")
  case True
  with assms(2) have
    "forEach (info s (name_of event)) (\<lambda>callback. off fire event (VFn callback)) s = Some (r, s')"
    by (simp add: removeAllListeners_def throwIfNot_def)
  then show ?thesis using assms(3)
    by (rule forEach_keeps[rotated]) (rule off_keeps[OF assms(1)])
next
  case False
  with assms(2,3) show ?thesis by (simp add: removeAllListeners_def throwIfNot_def)
qed

lemma perform_keeps:
  assumes "keeps fire" and "perform fire c s = Some (r, s')" and "unique_listeners s"
  shows "unique_listeners s'"
  using assms(2,3)
  by (auto simp: perform_def split: call.splits
      intro: on_keeps[OF assms(1)] off_keeps[OF assms(1)] one_keeps[OF assms(1)]
        removeAll_keeps[OF assms(1)] keepsD[OF assms(1)])

lemma exec_keeps:
  assumes "keeps fire"
  shows "exec fire b s = Some (r, s') \<Longrightarrow> unique_listeners s \<Longrightarrow> unique_listeners s'"
proof (induction b arbitrary: s)
  case (Do c k)
  from Do.prems obtain r1 s1 where 1: "perform fire c s = Some (r1, s1)"
    and 2: "exec fire (k r1) s1 = Some (r, s')"
    by (auto split: option.splits)
  from 1 Do.prems(2) have "unique_listeners s1" by (rule perform_keeps[OF assms])
  with 2 show ?case by (rule Do.IH[OF rangeI])
next
  case (Get i k)
  then show ?case by (auto intro: Get.IH[OF rangeI])
next
  case (Set i v b)
  from Set.prems have "exec fire b (s\<lparr>cells := (cells s)(i := v)\<rparr>) = Some (r, s')"
    "unique_listeners (s\<lparr>cells := (cells s)(i := v)\<rparr>)"
    by simp_all
  then show ?case by (rule Set.IH)
qed auto

lemma invoke_keeps:
  "keeps fire \<Longrightarrow> invoke fire P tag this f args s = Some (r, s') \<Longrightarrow>
    unique_listeners s \<Longrightarrow> unique_listeners s'"
proof (induction fire P tag this f args s arbitrary: r s' rule: invoke.induct)
  case (1 fire P tag this i args s)
  from "1.prems"(2) have
    "exec fire (P i args) (s\<lparr>trace := trace s @ [Called tag (User i) this args]\<rparr>) = Some (r, s')"
    by simp
  then show ?case by (rule exec_keeps[OF "1.prems"(1)]) (simp add: "1.prems"(3))
next
  case (2 fire P tag this k event g args s)
  let ?s0 = "s\<lparr>trace := trace s @ [Called tag (Single k event (VFn g)) this args]\<rparr>"
  from "2.prems"(2) obtain r1 s1 where
    1: "invoke fire P None ThisUndefined g [event, VFn g] ?s0 = Some (r1, s1)"
    by (auto split: option.splits)
  have "unique_listeners ?s0" using "2.prems"(3) by simp
  from "2.IH"[OF "2.prems"(1) 1 this] have u1: "unique_listeners s1" .
  show ?case
  proof (cases r1)
    case (Inl e)
    with "2.prems"(2) 1 have "s' = s1" by simp
    with u1 show ?thesis by simp
  next
    case (Inr v)
    with "2.prems"(2) 1 have "off fire event (VFn (Single k event (VFn g))) s1 = Some (r, s')"
      by simp
    then show ?thesis using u1 by (rule off_keeps[OF "2.prems"(1)])
  qed
qed (auto dest: off_keeps)

lemma announce_keeps:
  assumes "keeps fire" and "announce fire P round event args f s = Some (r, s')"
    and "unique_listeners s"
  shows "unique_listeners s'"
proof -
  from assms(2) obtain r1 s1 where
    1: "invoke fire P (Some round) ThisBroker f args s = Some (r1, s1)"
    by (auto simp: announce_def attempt_def split: option.splits)
  from invoke_keeps[OF assms(1) 1 assms(3)] have u1: "unique_listeners s1" .
  define error where "error = (case r1 of Inr v \<Rightarrow> v | Inl e \<Rightarrow> if isError e then e else VErrorOf e)"
  have a: "attempt (invoke fire P (Some round) ThisBroker f args) s = Some (error, s1)"
    using 1 by (auto simp: attempt_def error_def split: sum.splits)
  show ?thesis
  proof (cases "isError error")
    case False
    with assms(2) a have "s' = s1" by (auto simp: announce_def)
    with u1 show ?thesis by simp
  next
    case True
    with assms(2) a obtain r2 where
      "fire (VStr ERROR) [Failure event (VFn f) error] s1 = Some (r2, s')"
      by (auto simp: announce_def split: option.splits sum.splits)
    from keepsD[OF assms(1) this u1] show ?thesis .
  qed
qed

lemma emit_body_keeps:
  assumes "keeps fire"
  shows "keeps (emit_body fire P)"
  unfolding keeps_def
proof (intro allI impI)
  fix event args s r s'
  assume a: "emit_body fire P event args s = Some (r, s')" and u: "unique_listeners s"
  show "unique_listeners s'"
  proof (cases "isValidEvent event")
    case True
    let ?s0 = "s\<lparr>emits := Suc (emits s), trace := trace s @ [Emitted (emits s) (name_of event) args]\<rparr>"
    from a True obtain r1 where
      1: "forEach (info s (name_of event)) (announce fire P (emits s) event args) ?s0 = Some (r1, s')"
      by (auto simp: emit_body_def throwIfNot_def split: option.splits sum.splits)
    have "unique_listeners ?s0" using u by simp
    with 1 show ?thesis
      by (rule forEach_keeps[rotated]) (rule announce_keeps[OF assms])
  next
    case False
    with a u show ?thesis by (auto simp: emit_body_def throwIfNot_def)
  qed
qed

lemma emit_keeps: "keeps (emit n P)"
proof (induction n)
  case 0
  show ?case by (simp add: keeps_def)
next
  case (Suc n)
  then show ?case by (simp add: emit_body_keeps)
qed

section \<open>Registration\<close>

lemma uniq_from_snoc:
  "uniq_from seen (xs @ [f]) =
     (if f \<in> set (uniq_from seen xs) then uniq_from seen xs else uniq_from seen xs @ [f])"
  by (induction xs arbitrary: seen) auto

lemma uniq_from_id: "distinct (seen @ xs) \<Longrightarrow> uniq_from seen xs = seen @ xs"
  by (induction xs arbitrary: seen) auto

lemma uniq_concat_value:
  "distinct xs \<Longrightarrow> uniq (concat_value xs f) = (if f \<in> set xs then xs else xs @ [f])"
  by (simp add: uniq_def concat_value_def uniq_from_snoc uniq_from_id)

lemma emit_no_listeners:
  assumes "isValidEvent (VStr e)" and "info s e = []"
  shows "emit (Suc n) P (VStr e) args s =
    Some (Inr VUndefined, s\<lparr>emits := Suc (emits s), trace := trace s @ [Emitted (emits s) e args]\<rparr>)"
  using assms by (simp add: emit_body_def throwIfNot_def)

lemma info_update [simp]:
  "info (s\<lparr>registry := (registry s)(e \<mapsto> xs)\<rparr>) e' = (if e' = e then xs else info s e')"
  "info (s\<lparr>registry := (registry s)(e := None)\<rparr>) e' = (if e' = e then [] else info s e')"
  "info (s\<lparr>closures := c\<rparr>) e' = info s e'"
  "info (s\<lparr>emits := n\<rparr>) e' = info s e'"
  "info (s\<lparr>trace := t\<rparr>) e' = info s e'"
  "info (s\<lparr>cells := z\<rparr>) e' = info s e'"
  by (simp_all add: info_def)

lemma subscribe_appends:
  assumes "isValidEvent (VStr e)" and "info s ADDED = []" and "e \<noteq> ADDED"
    and "distinct (info s e)"
  shows "\<exists>s'. subscribe (Suc n) P (VStr e) (VFn f) s =
      Some (Inr (VFn (Unsub (closures s) (VStr e) (VFn f))), s') \<and>
    info s' e = (if f \<in> set (info s e) then info s e else info s e @ [f]) \<and>
    (\<forall>e'. e' \<noteq> e \<longrightarrow> info s' e' = info s e')"
proof -
  let ?xs = "if f \<in> set (info s e) then info s e else info s e @ [f]"
  let ?s1 = "s\<lparr>registry := (registry s)(e \<mapsto> ?xs)\<rparr>"
  have "info ?s1 ADDED = []" using assms(2,3) by simp
  from emit_no_listeners[OF valid_events(2) this]
  have "emit (Suc n) P (VStr ADDED) [Payload (VStr e) (VFn f)] ?s1 =
    Some (Inr VUndefined, ?s1\<lparr>emits := Suc (emits ?s1),
      trace := trace ?s1 @ [Emitted (emits ?s1) ADDED [Payload (VStr e) (VFn f)]]\<rparr>)" .
  then show ?thesis
    using assms(1,4)
    by (simp add: subscribe_def on_def throwIfNot_def isValidCallback_def uniq_concat_value
        del: emit.simps)
qed

lemma returnsD: "returns op s \<Longrightarrow> \<exists>r. op s = Some (r, after op s)"
  by (auto simp: returns_def after_def split: option.splits)

section \<open>Emissions in the trace\<close>

lemma since_update [simp]:
  "since (s\<lparr>registry := x\<rparr>) u = since s u"
  "since (s\<lparr>closures := y\<rparr>) u = since s u"
  "since (s\<lparr>cells := z\<rparr>) u = since s u"
  "since (s\<lparr>emits := k\<rparr>) u = since s u"
  "since s (u\<lparr>registry := x\<rparr>) = since s u"
  "since s (u\<lparr>closures := y\<rparr>) = since s u"
  "since s (u\<lparr>cells := z\<rparr>) = since s u"
  "since s (u\<lparr>emits := k\<rparr>) = since s u"
  by (simp_all add: since_def)

lemma emit_emitted:
  assumes "emit n P (VStr e) args s = Some (r, s')" and "isValidEvent (VStr e)"
  shows "\<exists>rest. since s s' = Emitted (emits s) e args # rest"
proof (cases n)
  case 0
  with assms show ?thesis by simp
next
  case (Suc m)
  let ?s0 = "s\<lparr>emits := Suc (emits s), trace := trace s @ [Emitted (emits s) e args]\<rparr>"
  from assms Suc obtain r1 where
    1: "forEach (info s e) (announce (emit m P) P (emits s) (VStr e) args) ?s0 = Some (r1, s')"
    by (auto simp: emit_body_def throwIfNot_def split: option.splits sum.splits)
  have "emits s < emits ?s0" by simp
  from forEach_announce[OF emit_sound 1 this] obtain new where "trace s' = trace ?s0 @ new"
    by auto
  then show ?thesis by (simp add: since_def)
qed

lemma emit_valid_result:
  "emit n P (VStr e) args s = Some (r, s') \<Longrightarrow> isValidEvent (VStr e) \<Longrightarrow> r = Inr VUndefined"
  using emit_sound[of n P] by (auto simp: sound_def)

lemma emit_as_fire:
  assumes "isValidEvent (VStr e)"
  shows "(case emit n P (VStr e) args s of None \<Rightarrow> None
     | Some (Inl x, s2) \<Rightarrow> Some (Inl x, s2)
     | Some (Inr v, s2) \<Rightarrow> Some (Inr VUndefined, s2)) = emit n P (VStr e) args s"
  using emit_valid_result[OF _ assms, of n P args s]
  by (auto split: option.splits sum.splits)





lemma removals_calls [simp]: "removals (map (\<lambda>f. Called tag f this args) fs) = []"
  by (induction fs) (simp_all add: removals_def)

lemma removals_append [simp]: "removals (xs @ ys) = removals xs @ removals ys"
  by (simp add: removals_def)


section \<open>Failing listeners\<close>





section \<open>Listeners subscribed with one\<close>

lemma invoke_single_user:
  "invoke fire P tag this (Single k ev (VFn (User i))) args s =
    (case exec fire (P i [ev, VFn (User i)])
            (s\<lparr>trace := trace s @
               [Called tag (Single k ev (VFn (User i))) this args,
                Called None (User i) ThisUndefined [ev, VFn (User i)]]\<rparr>) of
       None \<Rightarrow> None
     | Some (Inl x, s1) \<Rightarrow> Some (Inl x, s1)
     | Some (Inr v, s1) \<Rightarrow> off fire ev (VFn (Single k ev (VFn (User i)))) s1)"
  by simp

section \<open>Validation\<close>

lemma invalid_event_rejected:
  assumes "\<not> isValidEvent event"
  shows "on fire event callback s = Some (Inl (VTypeError EVENT_ERROR), s)"
    and "off fire event callback s = Some (Inl (VTypeError EVENT_ERROR), s)"
    and "removeAllListeners fire event s = Some (Inl (VTypeError EVENT_ERROR), s)"
    and "emit_body fire P event args s = Some (Inl (VTypeError EVENT_ERROR), s)"
    and "one_listener fire event callback s =
      Some (Inl (VTypeError EVENT_ERROR), s\<lparr>closures := Suc (closures s)\<rparr>)"
  using assms
  by (simp_all add: on_def off_def removeAllListeners_def emit_body_def one_listener_def
      throwIfNot_def)

lemma invalid_callback_rejected:
  assumes "isValidEvent event" and "\<not> isValidCallback callback"
  shows "on fire event callback s = Some (Inl (VTypeError CALLBACK_ERROR), s)"
    and "off fire event callback s = Some (Inl (VTypeError CALLBACK_ERROR), s)"
  using assms by (simp_all add: on_def off_def throwIfNot_def)

section \<open>The bound on nesting\<close>

text \<open>
  A call that comes back within some bound on the nesting of emissions comes back with the
  same result within every larger bound.
\<close>

lemma belowD: "below fire fire' \<Longrightarrow> fire event args s = Some x \<Longrightarrow> fire' event args s = Some x"
  unfolding below_def by blast

lemma on_mono:
  assumes "below fire fire'" and "on fire event callback s = Some x"
  shows "on fire' event callback s = Some x"
  using assms(2)
  by (auto simp: on_def Let_def split: option.splits sum.splits
      dest!: belowD[OF assms(1)])

lemma off_mono:
  assumes "below fire fire'" and "off fire event callback s = Some x"
  shows "off fire' event callback s = Some x"
  using assms(2)
  by (auto simp: off_def Let_def split: option.splits sum.splits if_splits
      dest!: belowD[OF assms(1)])

lemma one_mono:
  assumes "below fire fire'" and "one_listener fire event callback s = Some x"
  shows "one_listener fire' event callback s = Some x"
  using assms(2) by (simp add: one_listener_def Let_def on_mono[OF assms(1)])

lemma forEach_mono:
  assumes "\<And>x s y. iteratee x s = Some y \<Longrightarrow> iteratee' x s = Some y"
  shows "forEach xs iteratee s = Some y \<Longrightarrow> forEach xs iteratee' s = Some y"
proof (induction xs arbitrary: s)
  case Nil
  then show ?case by simp
next
  case (Cons x xs)
  from Cons.prems obtain p where 1: "iteratee x s = Some p"
    by (auto split: option.splits)
  from assms[OF 1] have 2: "iteratee' x s = Some p" .
  from Cons.prems Cons.IH show ?case
    unfolding forEach.simps 1 2 by (auto split: prod.splits sum.splits if_splits)
qed

lemma removeAll_mono:
  assumes "below fire fire'" and "removeAllListeners fire event s = Some x"
  shows "removeAllListeners fire' event s = Some x"
  using assms(2)
  by (auto simp: removeAllListeners_def split: option.splits
      elim!: forEach_mono[rotated] intro: off_mono[OF assms(1)])

lemma perform_mono:
  assumes "below fire fire'" and "perform fire c s = Some x"
  shows "perform fire' c s = Some x"
  using assms(2)
  by (auto simp: perform_def split: call.splits
      intro: on_mono[OF assms(1)] off_mono[OF assms(1)] one_mono[OF assms(1)]
        removeAll_mono[OF assms(1)] belowD[OF assms(1)])

lemma exec_mono:
  assumes "below fire fire'"
  shows "exec fire b s = Some x \<Longrightarrow> exec fire' b s = Some x"
proof (induction b arbitrary: s)
  case (Do c k)
  from Do.prems obtain r1 s1 where 1: "perform fire c s = Some (r1, s1)"
    and 2: "exec fire (k r1) s1 = Some x"
    by (auto split: option.splits)
  from perform_mono[OF assms 1] Do.IH[OF rangeI 2] show ?case by simp
next
  case (Get i k)
  then show ?case by (auto intro: Get.IH[OF rangeI])
next
  case (Set i v b)
  then show ?case by simp
qed auto

lemma invoke_mono:
  "below fire fire' \<Longrightarrow> invoke fire P tag this f args s = Some x \<Longrightarrow>
   invoke fire' P tag this f args s = Some x"
proof (induction fire P tag this f args s arbitrary: x rule: invoke.induct)
  case (1 fire P tag this i args s)
  then show ?case by (auto intro: exec_mono)
next
  case (2 fire P tag this k event g args s)
  let ?s0 = "s\<lparr>trace := trace s @ [Called tag (Single k event (VFn g)) this args]\<rparr>"
  from "2.prems"(2) obtain r1 s1 where
    1: "invoke fire P None ThisUndefined g [event, VFn g] ?s0 = Some (r1, s1)"
    by (auto split: option.splits)
  from "2.IH"[OF "2.prems"(1) 1]
  have 3: "invoke fire' P None ThisUndefined g [event, VFn g] ?s0 = Some (r1, s1)" .
  from "2.prems"(2) show ?case
    unfolding invoke.simps 1 3
    by (auto split: sum.splits intro: off_mono[OF "2.prems"(1)])
qed (auto intro: off_mono)

lemma announce_mono:
  assumes "below fire fire'" and "announce fire P round event args f s = Some x"
  shows "announce fire' P round event args f s = Some x"
proof -
  from assms(2) obtain p where
    1: "invoke fire P (Some round) ThisBroker f args s = Some p"
    by (auto simp: announce_def attempt_def split: option.splits)
  from invoke_mono[OF assms(1) 1]
  have 2: "invoke fire' P (Some round) ThisBroker f args s = Some p" .
  from assms(2) show ?thesis
    unfolding announce_def attempt_def 1 2
    by (auto split: option.splits sum.splits prod.splits if_splits dest!: belowD[OF assms(1)])
qed

lemma emit_body_mono:
  assumes "below fire fire'"
  shows "below (emit_body fire P) (emit_body fire' P)"
  unfolding below_def
proof (intro allI impI)
  fix event args s x
  assume a: "emit_body fire P event args s = Some x"
  show "emit_body fire' P event args s = Some x"
  proof (cases "isValidEvent event")
    case True
    let ?s0 = "s\<lparr>emits := Suc (emits s), trace := trace s @ [Emitted (emits s) (name_of event) args]\<rparr>"
    from a True obtain p where
      1: "forEach (info s (name_of event)) (announce fire P (emits s) event args) ?s0 = Some p"
      by (auto simp: emit_body_def throwIfNot_def split: option.splits)
    from forEach_mono[of "announce fire P (emits s) event args"
        "announce fire' P (emits s) event args", OF announce_mono[OF assms] 1]
    have 2: "forEach (info s (name_of event)) (announce fire' P (emits s) event args) ?s0 = Some p" .
    from a True show ?thesis
      by (simp add: emit_body_def throwIfNot_def 1 2)
  next
    case False
    with a show ?thesis by (simp add: emit_body_def throwIfNot_def)
  qed
qed

lemma emit_Suc_mono: "below (emit n P) (emit (Suc n) P)"
proof (induction n)
  case 0
  show ?case by (simp add: below_def)
next
  case (Suc n)
  from emit_body_mono[OF Suc] show ?case by simp
qed

lemma emit_mono:
  assumes "emit n P event args s = Some x" and "n \<le> m"
  shows "emit m P event args s = Some x"
  using assms(2,1)
proof (induction m rule: dec_induct)
  case base
  then show ?case .
next
  case (step k)
  from belowD[OF emit_Suc_mono step.IH[OF step.prems]] show ?case .
qed

text \<open>
  No bound is enough for an emission of \<^verbatim>\<open>error\<close> whose first listener always throws: each
  failure is announced by a further emission of \<^verbatim>\<open>error\<close>.
\<close>

lemma throwing_error_listener_never_returns:
  assumes "\<And>args. \<exists>x. P i args = Throw x"
  shows "info s ERROR = User i # fs \<Longrightarrow> emit n P (VStr ERROR) args s = None"
proof (induction n arbitrary: s args fs)
  case 0
  show ?case by simp
next
  case (Suc n)
  let ?s0 = "s\<lparr>emits := Suc (emits s), trace := trace s @ [Emitted (emits s) ERROR args]\<rparr>"
  let ?s1 = "?s0\<lparr>trace := trace ?s0 @ [Called (Some (emits s)) (User i) ThisBroker args]\<rparr>"
  from assms obtain x where x: "P i args = Throw x" by blast
  have "info ?s1 ERROR = User i # fs" using Suc.prems by simp
  from Suc.IH[OF this] have "announce (emit n P) P (emits s) (VStr ERROR) args (User i) ?s0 = None"
    using x by (simp add: announce_def attempt_def)
  then show ?case using Suc.prems by (simp add: emit_body_def throwIfNot_def)
qed

section \<open>Tame listeners\<close>

text \<open>
  On an unobserved broker with tame listeners no emission is nested more than one level
  deep, so every emission returns.
\<close>

lemma unobserved_update [simp]:
  "unobserved (s\<lparr>closures := y\<rparr>) = unobserved s"
  "unobserved (s\<lparr>cells := z\<rparr>) = unobserved s"
  "unobserved (s\<lparr>trace := t\<rparr>) = unobserved s"
  "unobserved (s\<lparr>emits := n\<rparr>) = unobserved s"
  by (simp_all add: unobserved_def)

lemma unobserved_other:
  "unobserved s \<Longrightarrow> \<not> lifecycle e \<Longrightarrow> unobserved (s\<lparr>registry := (registry s)(e := x)\<rparr>)"
  by (auto simp: unobserved_def lifecycle_def info_def)

lemma unobserved_info: "unobserved s \<Longrightarrow> lifecycle e \<Longrightarrow> info s e = []"
  by (auto simp: unobserved_def lifecycle_def)

lemma responsiveD:
  "responsive fire \<Longrightarrow> unobserved s \<Longrightarrow> lifecycle (name_of event) \<Longrightarrow>
   \<exists>r s'. fire event args s = Some (r, s') \<and> unobserved s'"
  unfolding responsive_def by blast

lemma lifecycle_names [simp]: "lifecycle ERROR" "lifecycle ADDED" "lifecycle REMOVED"
  by (simp_all add: lifecycle_def)

lemma on_tame:
  assumes "responsive fire" and "unobserved s" and "\<not> lifecycle (name_of event)"
  shows "\<exists>r s'. on fire event callback s = Some (r, s') \<and> unobserved s'"
proof (cases "isValidEvent event \<and> isValidCallback callback")
  case False
  with assms(2) show ?thesis by (auto simp: on_def throwIfNot_def)
next
  case True
  let ?s1 = "s\<lparr>registry := (registry s)(name_of event \<mapsto>
      uniq (concat_value (info s (name_of event)) (fn_of callback)))\<rparr>"
  have "unobserved ?s1" using assms(2,3) by (rule unobserved_other)
  from responsiveD[OF assms(1) this, of "VStr ADDED" "[Payload event callback]"]
  obtain r s2 where "fire (VStr ADDED) [Payload event callback] ?s1 = Some (r, s2)"
    "unobserved s2"
    by auto
  with True show ?thesis
    by (cases r) (auto simp: on_def throwIfNot_def)
qed

lemma off_tame:
  assumes "responsive fire" and "unobserved s"
  shows "\<exists>r s'. off fire event callback s = Some (r, s') \<and> unobserved s'"
proof (cases "isValidEvent event \<and> isValidCallback callback \<and>
    length (info s (name_of event)) \<noteq>
      length (without (info s (name_of event)) (fn_of callback))")
  case False
  with assms(2) show ?thesis by (auto simp: off_def throwIfNot_def)
next
  case True
  then have "info s (name_of event) \<noteq> []" by (auto simp: without_def)
  with assms(2) have n: "\<not> lifecycle (name_of event)" by (auto dest: unobserved_info)
  define s1 where "s1 =
    (if isEmpty (without (info s (name_of event)) (fn_of callback))
     then s\<lparr>registry := (registry s)(name_of event := None)\<rparr>
     else s\<lparr>registry := (registry s)(name_of event \<mapsto>
       without (info s (name_of event)) (fn_of callback))\<rparr>)"
  have "unobserved s1" unfolding s1_def using assms(2) n by (simp add: unobserved_other)
  from responsiveD[OF assms(1) this, of "VStr REMOVED" "[Payload event callback]"]
  obtain r s2 where "fire (VStr REMOVED) [Payload event callback] s1 = Some (r, s2)"
    "unobserved s2"
    by auto
  with True show ?thesis
    by (cases r) (auto simp: off_def throwIfNot_def s1_def)
qed

lemma one_tame:
  assumes "responsive fire" and "unobserved s" and "\<not> lifecycle (name_of event)"
  shows "\<exists>r s'. one_listener fire event callback s = Some (r, s') \<and> unobserved s'"
  using on_tame[OF assms(1) _ assms(3), of "s\<lparr>closures := Suc (closures s)\<rparr>"] assms(2)
  by (simp add: one_listener_def)

lemma forEach_tame:
  assumes "\<And>x s. unobserved s \<Longrightarrow> \<exists>r s'. iteratee x s = Some (r, s') \<and> unobserved s'"
  shows "unobserved s \<Longrightarrow> \<exists>r s'. forEach xs iteratee s = Some (r, s') \<and> unobserved s'"
proof (induction xs arbitrary: s)
  case Nil
  then show ?case by simp
next
  case (Cons x xs)
  from assms[OF Cons.prems, of x] obtain r1 s1 where 1: "iteratee x s = Some (r1, s1)"
    and 2: "unobserved s1"
    by auto
  from Cons.IH[OF 2] 1 2 show ?case by (cases r1) auto
qed

lemma removeAll_tame:
  assumes "responsive fire" and "unobserved s"
  shows "\<exists>r s'. removeAllListeners fire event s = Some (r, s') \<and> unobserved s'"
proof (cases "isValidEvent event")
  case False
  with assms(2) show ?thesis by (simp add: removeAllListeners_def throwIfNot_def)
next
  case True
  from forEach_tame[of "\<lambda>callback. off fire event (VFn callback)", OF off_tame[OF assms(1)] assms(2)]
  show ?thesis using True by (simp add: removeAllListeners_def throwIfNot_def)
qed

lemma perform_tame:
  assumes "responsive fire" and "unobserved s" and "tame_call c"
  shows "\<exists>r s'. perform fire c s = Some (r, s') \<and> unobserved s'"
  using assms(3)
  by (cases c)
    (simp_all add: perform_def on_tame[OF assms(1,2)] one_tame[OF assms(1,2)]
      off_tame[OF assms(1,2)] removeAll_tame[OF assms(1,2)] responsiveD[OF assms(1,2)])

lemma exec_tame:
  assumes "responsive fire"
  shows "tame b \<Longrightarrow> unobserved s \<Longrightarrow> \<exists>r s'. exec fire b s = Some (r, s') \<and> unobserved s'"
proof (induction b arbitrary: s)
  case (Do c k)
  from Do.prems have c: "tame_call c" and k: "\<And>r. tame (k r)" by simp_all
  from perform_tame[OF assms Do.prems(2) c] obtain r1 s1 where
    1: "perform fire c s = Some (r1, s1)" and 2: "unobserved s1"
    by auto
  from Do.IH[OF rangeI k 2, of r1] 1 show ?case by simp
next
  case (Get i k)
  from Get.IH[OF rangeI _ Get.prems(2), of "cells s i"] Get.prems(1) show ?case by simp
next
  case (Set i v b)
  from Set.IH[of "s\<lparr>cells := (cells s)(i := v)\<rparr>"] Set.prems show ?case by simp
qed simp_all

lemma invoke_tame:
  "responsive fire \<Longrightarrow> tame_prog P \<Longrightarrow> unobserved s \<Longrightarrow>
   \<exists>r s'. invoke fire P tag this f args s = Some (r, s') \<and> unobserved s'"
proof (induction fire P tag this f args s rule: invoke.induct)
  case (1 fire P tag this i args s)
  from "1.prems"(2) have "tame (P i args)" by (simp add: tame_prog_def)
  from exec_tame[OF "1.prems"(1) this,
      of "s\<lparr>trace := trace s @ [Called tag (User i) this args]\<rparr>"] "1.prems"(3)
  show ?case by simp
next
  case (2 fire P tag this k event g args s)
  let ?s0 = "s\<lparr>trace := trace s @ [Called tag (Single k event (VFn g)) this args]\<rparr>"
  have "unobserved ?s0" using "2.prems"(3) by simp
  from "2.IH"[OF "2.prems"(1,2) this] obtain r1 s1 where
    1: "invoke fire P None ThisUndefined g [event, VFn g] ?s0 = Some (r1, s1)"
    and 2: "unobserved s1"
    by auto
  from off_tame[OF "2.prems"(1) 2, of event "VFn (Single k event (VFn g))"] 1 2
  show ?case by (cases r1) auto
next
  case (4 fire P tag this k event callback args s)
  from off_tame[OF "4.prems"(1), of
      "s\<lparr>trace := trace s @ [Called tag (Unsub k event callback) this args]\<rparr>"
      event callback] "4.prems"(3)
  show ?case by simp
qed simp_all


lemma announce_tame:
  assumes "responsive fire" and "tame_prog P" and "unobserved s"
  shows "\<exists>r s'. announce fire P round event args f s = Some (r, s') \<and> unobserved s'"
proof -
  from invoke_tame[where tag = "Some round" and this = ThisBroker and f = f and args = args,
      OF assms]
  obtain r1 s1 where
    1: "invoke fire P (Some round) ThisBroker f args s = Some (r1, s1)"
    and 2: "unobserved s1"
    by auto
  define error where "error = (case r1 of Inr v \<Rightarrow> v | Inl e \<Rightarrow> if isError e then e else VErrorOf e)"
  have a: "attempt (invoke fire P (Some round) ThisBroker f args) s = Some (error, s1)"
    using 1 by (auto simp: attempt_def error_def split: sum.splits)
  show ?thesis
  proof (cases "isError error")
    case False
    with a 2 show ?thesis by (simp add: announce_def)
  next
    case True
    from responsiveD[OF assms(1) 2, of "VStr ERROR" "[Failure event (VFn f) error]"]
    obtain r2 s2 where "fire (VStr ERROR) [Failure event (VFn f) error] s1 = Some (r2, s2)"
      "unobserved s2"
      by auto
    with a True show ?thesis by (cases r2) (auto simp: announce_def)
  qed
qed

lemma emit_body_tame:
  assumes "responsive fire" and "tame_prog P" and "unobserved s"
  shows "\<exists>r s'. emit_body fire P event args s = Some (r, s') \<and> unobserved s'"
proof (cases "isValidEvent event")
  case False
  with assms(3) show ?thesis by (simp add: emit_body_def throwIfNot_def)
next
  case True
  let ?s0 = "s\<lparr>emits := Suc (emits s),
    trace := trace s @ [Emitted (emits s) (name_of event) args]\<rparr>"
  have "unobserved ?s0" using assms(3) by simp
  from forEach_tame[of "announce fire P (emits s) event args", OF announce_tame[OF assms(1,2)] this]
  obtain r1 s1 where
    "forEach (info s (name_of event)) (announce fire P (emits s) event args) ?s0 = Some (r1, s1)"
    "unobserved s1"
    by blast
  with True show ?thesis by (cases r1) (auto simp: emit_body_def throwIfNot_def)
qed

lemma emit_responsive: "responsive (emit (Suc n) P)"
  unfolding responsive_def
proof (intro allI impI)
  fix event args s
  assume u: "unobserved s" and l: "lifecycle (name_of event)"
  then obtain e where e: "event = VStr e \<or> \<not> isValidEvent event" "name_of event = e"
    by (cases event) (auto simp: isValidEvent_def)
  show "\<exists>r s'. emit (Suc n) P event args s = Some (r, s') \<and> unobserved s'"
  proof (cases "isValidEvent event")
    case False
    with u show ?thesis by (simp add: emit_body_def throwIfNot_def)
  next
    case True
    with e have v: "event = VStr e" by simp
    from u l e(2) have "info s e = []" by (auto dest: unobserved_info)
    from emit_no_listeners[OF True[unfolded v] this, of n P args] u v show ?thesis
      by (simp del: emit.simps)
  qed
qed

lemma emit_tame:
  assumes "tame_prog P" and "unobserved s" and "isValidEvent event"
  shows "\<exists>s'. emit (Suc (Suc n)) P event args s = Some (Inr VUndefined, s') \<and> unobserved s'"
proof -
  from emit_body_tame[OF emit_responsive[of n P] assms(1,2), of event args]
  obtain r s' where
    "emit_body (emit (Suc n) P) P event args s = Some (r, s')" and 2: "unobserved s'"
    by blast
  then have 1: "emit (Suc (Suc n)) P event args s = Some (r, s')" by simp
  from emit_sound[of "Suc (Suc n)" P] 1 assms(3) have "r = Inr VUndefined"
    unfolding sound_def by blast
  with 1 2 show ?thesis by simp
qed

section \<open>Claims\<close>

text \<open>
  C1. One call of \<^verbatim>\<open>emit\<close> with a valid event name calls exactly the listeners that were
  registered for the event when the call began, in their order and with the emitted
  arguments, whatever the listeners do meanwhile: a listener that is removed during the
  round is still called, and one that is added is not. On an unobserved broker with tame
  listeners the call does return. With five listeners of which the third removes itself,
  all five are called once, and the other four remain registered.
\<close>

theorem emit_invokes_snapshot:
  assumes "isValidEvent (VStr e)"
  shows "(emit n P (VStr e) args s = Some (r, s') \<longrightarrow>
      round_calls (emits s) (since s s') =
        map (\<lambda>f. Called (Some (emits s)) f ThisBroker args) (info s e)) \<and>
    (tame_prog P \<longrightarrow> unobserved s \<longrightarrow>
      (\<exists>u. emit (Suc (Suc m)) P (VStr e) args s = Some (Inr VUndefined, u)))"
proof (intro conjI impI)
  assume "emit n P (VStr e) args s = Some (r, s')"
  from emit_round[OF this assms]
  show "round_calls (emits s) (since s s') =
      map (\<lambda>f. Called (Some (emits s)) f ThisBroker args) (info s e)"
    by simp
next
  assume "tame_prog P" and "unobserved s"
  from emit_tame[OF this assms, of m args]
  show "\<exists>u. emit (Suc (Suc m)) P (VStr e) args s = Some (Inr VUndefined, u)"
    by blast
qed

theorem emit_invokes_snapshot_witness:
  "isValidEvent (VStr ''event'') \<and> tame_prog self_removing \<and>
   unobserved (five_listeners self_removing) \<and>
   (\<exists>s'. emit 2 self_removing (VStr ''event'') [VNum 7] (five_listeners self_removing) =
        Some (Inr VUndefined, s') \<and>
     round_calls (emits (five_listeners self_removing))
         (since (five_listeners self_removing) s') =
       [Called (Some 5) (User 1) ThisBroker [VNum 7],
        Called (Some 5) (User 2) ThisBroker [VNum 7],
        Called (Some 5) (User 3) ThisBroker [VNum 7],
        Called (Some 5) (User 4) ThisBroker [VNum 7],
        Called (Some 5) (User 5) ThisBroker [VNum 7]] \<and>
     info s' ''event'' = [User 1, User 2, User 4, User 5])"
proof -
  let ?s = "five_listeners self_removing"
  let ?em = "emit 2 self_removing (VStr ''event'') [VNum 7]"
  have v: "isValidEvent (VStr ''event'')" by code_simp
  have t: "tame_prog self_removing" by (simp add: tame_prog_def self_removing_def)
  have u: "unobserved ?s" by code_simp
  have e: "emits ?s = 5" by code_simp
  have l: "info ?s ''event'' = [User 1, User 2, User 3, User 4, User 5]" by code_simp
  have i: "info (after ?em ?s) ''event'' = [User 1, User 2, User 4, User 5]" by code_simp
  note T = emit_invokes_snapshot[OF v, of _ self_removing "[VNum 7]" ?s]
  from T[THEN conjunct2, THEN mp, OF t, THEN mp, OF u, of 0] obtain s' where
    h: "?em ?s = Some (Inr VUndefined, s')"
    by (auto simp: numeral_2_eq_2)
  then have a: "s' = after ?em ?s" by (simp add: after_def)
  from T[of 2 "Inr VUndefined" s', THEN conjunct1, THEN mp, OF h]
  have "round_calls (emits ?s) (since ?s s') =
       [Called (Some 5) (User 1) ThisBroker [VNum 7],
        Called (Some 5) (User 2) ThisBroker [VNum 7],
        Called (Some 5) (User 3) ThisBroker [VNum 7],
        Called (Some 5) (User 4) ThisBroker [VNum 7],
        Called (Some 5) (User 5) ThisBroker [VNum 7]]"
    by (simp add: e l)
  with v t u h i a show ?thesis by blast
qed



text \<open>
  C3 fails on the code. Whatever \<^verbatim>\<open>single\<close> is called with, it calls the callback with the
  arguments of \<^verbatim>\<open>one\<close>, that is the event name and the callback itself:
  after \<^verbatim>\<open>one('event', f)\<close>, \<^verbatim>\<open>emit('event', 7, 'x')\<close> calls \<open>f\<close> once, with \<^verbatim>\<open>('event', f)\<close>.
\<close>

theorem once_callback_gets_registration_arguments:
  "invoke fire P tag this (Single k ev (VFn (User i))) args s =
    (case exec fire (P i [ev, VFn (User i)])
            (s\<lparr>trace := trace s @
               [Called tag (Single k ev (VFn (User i))) this args,
                Called None (User i) ThisUndefined [ev, VFn (User i)]]\<rparr>) of
       None \<Rightarrow> None
     | Some (Inl x, s1) \<Rightarrow> Some (Inl x, s1)
     | Some (Inr v, s1) \<Rightarrow> off fire ev (VFn (Single k ev (VFn (User i)))) s1) \<and>
   since once_subscribed
     (after (emit 2 quiet (VStr ''event'') [VNum 7, VStr ''x'']) once_subscribed) =
     [Emitted 1 ''event'' [VNum 7, VStr ''x''],
      Called (Some 1) (Single 0 (VStr ''event'') (VFn (User 1))) ThisBroker
        [VNum 7, VStr ''x''],
      Called None (User 1) ThisUndefined [VStr ''event'', VFn (User 1)],
      Emitted 2 REMOVED
        [Payload (VStr ''event'') (VFn (Single 0 (VStr ''event'') (VFn (User 1))))]]"
proof
  show "invoke fire P tag this (Single k ev (VFn (User i))) args s =
    (case exec fire (P i [ev, VFn (User i)])
            (s\<lparr>trace := trace s @
               [Called tag (Single k ev (VFn (User i))) this args,
                Called None (User i) ThisUndefined [ev, VFn (User i)]]\<rparr>) of
       None \<Rightarrow> None
     | Some (Inl x, s1) \<Rightarrow> Some (Inl x, s1)
     | Some (Inr v, s1) \<Rightarrow> off fire ev (VFn (Single k ev (VFn (User i)))) s1)"
    by (rule invoke_single_user)
  show "since once_subscribed
     (after (emit 2 quiet (VStr ''event'') [VNum 7, VStr ''x'']) once_subscribed) =
     [Emitted 1 ''event'' [VNum 7, VStr ''x''],
      Called (Some 1) (Single 0 (VStr ''event'') (VFn (User 1))) ThisBroker
        [VNum 7, VStr ''x''],
      Called None (User 1) ThisUndefined [VStr ''event'', VFn (User 1)],
      Emitted 2 REMOVED
        [Payload (VStr ''event'') (VFn (Single 0 (VStr ''event'') (VFn (User 1))))]]"
    by code_simp
qed

text \<open>
  C4. \<^verbatim>\<open>emit\<close> with a valid event name calls the listeners registered for the event in the
  order of their list, each with the emitted arguments and with the broker as \<^verbatim>\<open>this\<close>, and
  each exactly once when the list has no duplicates; on an unobserved broker with tame
  listeners the call does return. A new listener is put at the end of the list, so the
  order of the list is the order of registration: five listeners registered one after
  the other are called in that order.
\<close>

theorem emit_registration_order:
  assumes "isValidEvent (VStr e)"
  shows "(emit n P (VStr e) args s = Some (r, s') \<longrightarrow>
      round_calls (emits s) (since s s') =
        map (\<lambda>f. Called (Some (emits s)) f ThisBroker args) (info s e) \<and>
      (distinct (info s e) \<longrightarrow> distinct (round_calls (emits s) (since s s')))) \<and>
    (tame_prog P \<longrightarrow> unobserved s \<longrightarrow>
      (\<exists>u. emit (Suc (Suc m)) P (VStr e) args s = Some (Inr VUndefined, u))) \<and>
    (distinct (info s e) \<longrightarrow> info s ADDED = [] \<longrightarrow> e \<noteq> ADDED \<longrightarrow> f \<notin> set (info s e) \<longrightarrow>
      (\<exists>u. subscribe (Suc m) P (VStr e) (VFn f) s =
            Some (Inr (VFn (Unsub (closures s) (VStr e) (VFn f))), u) \<and>
          info u e = info s e @ [f]))"
proof (intro conjI impI)
  assume a: "emit n P (VStr e) args s = Some (r, s')"
  from emit_round[OF a assms]
  show c: "round_calls (emits s) (since s s') =
      map (\<lambda>f. Called (Some (emits s)) f ThisBroker args) (info s e)"
    by simp
  assume "distinct (info s e)"
  then show "distinct (round_calls (emits s) (since s s'))"
    unfolding c by (simp add: distinct_map inj_on_def)
next
  assume "tame_prog P" and "unobserved s"
  from emit_tame[OF this assms, of m args]
  show "\<exists>u. emit (Suc (Suc m)) P (VStr e) args s = Some (Inr VUndefined, u)"
    by blast
next
  assume "distinct (info s e)" "info s ADDED = []" "e \<noteq> ADDED" "f \<notin> set (info s e)"
  with subscribe_appends[OF assms, of s m P f]
  show "\<exists>u. subscribe (Suc m) P (VStr e) (VFn f) s =
            Some (Inr (VFn (Unsub (closures s) (VStr e) (VFn f))), u) \<and>
          info u e = info s e @ [f]"
    by auto
qed

theorem emit_registration_order_witness:
  "isValidEvent (VStr ''event'') \<and> tame_prog quiet \<and> unobserved (five_listeners quiet) \<and>
   (\<exists>s'. emit 2 quiet (VStr ''event'') [VNum 1, VStr ''a''] (five_listeners quiet) =
        Some (Inr VUndefined, s') \<and>
      round_calls (emits (five_listeners quiet)) (since (five_listeners quiet) s') =
       [Called (Some 5) (User 1) ThisBroker [VNum 1, VStr ''a''],
        Called (Some 5) (User 2) ThisBroker [VNum 1, VStr ''a''],
        Called (Some 5) (User 3) ThisBroker [VNum 1, VStr ''a''],
        Called (Some 5) (User 4) ThisBroker [VNum 1, VStr ''a''],
        Called (Some 5) (User 5) ThisBroker [VNum 1, VStr ''a'']] \<and>
      distinct (round_calls (emits (five_listeners quiet)) (since (five_listeners quiet) s'))) \<and>
   (\<exists>u. subscribe 1 quiet (VStr ''event'') (VFn (User 6)) (five_listeners quiet) =
         Some (Inr (VFn (Unsub 5 (VStr ''event'') (VFn (User 6)))), u) \<and>
       info u ''event'' = [User 1, User 2, User 3, User 4, User 5, User 6])"
proof -
  let ?s = "five_listeners quiet"
  have v: "isValidEvent (VStr ''event'')" by code_simp
  have t: "tame_prog quiet" by (simp add: tame_prog_def quiet_def)
  have u: "unobserved ?s" by code_simp
  have e: "emits ?s = 5" by code_simp
  have c: "closures ?s = 5" by code_simp
  have l: "info ?s ''event'' = [User 1, User 2, User 3, User 4, User 5]" by code_simp
  have a: "info ?s ADDED = []" by code_simp
  have n: "''event'' \<noteq> ADDED" by code_simp
  note T = emit_registration_order[OF v, of _ quiet "[VNum 1, VStr ''a'']" ?s _ _ 0 "User 6"]
  from T[THEN conjunct2, THEN conjunct1, THEN mp, OF t, THEN mp, OF u] obtain s' where
    h: "emit 2 quiet (VStr ''event'') [VNum 1, VStr ''a''] ?s = Some (Inr VUndefined, s')"
    by (auto simp: numeral_2_eq_2)
  from T[of 2 "Inr VUndefined" s', THEN conjunct1, THEN mp, OF h]
  have r: "round_calls (emits ?s) (since ?s s') =
       [Called (Some 5) (User 1) ThisBroker [VNum 1, VStr ''a''],
        Called (Some 5) (User 2) ThisBroker [VNum 1, VStr ''a''],
        Called (Some 5) (User 3) ThisBroker [VNum 1, VStr ''a''],
        Called (Some 5) (User 4) ThisBroker [VNum 1, VStr ''a''],
        Called (Some 5) (User 5) ThisBroker [VNum 1, VStr ''a'']]"
    and d: "distinct (round_calls (emits ?s) (since ?s s'))"
    by (simp_all add: e l)
  from T[of 0 "Inr VUndefined" ?s, THEN conjunct2, THEN conjunct2] a n
  have b: "\<exists>u. subscribe 1 quiet (VStr ''event'') (VFn (User 6)) ?s =
         Some (Inr (VFn (Unsub 5 (VStr ''event'') (VFn (User 6)))), u) \<and>
       info u ''event'' = [User 1, User 2, User 3, User 4, User 5, User 6]"
    by (simp add: l c)
  from v t u h r d b show ?thesis by blast
qed

text \<open>
  C5. No listener occurs twice in the list of an event: this holds of a new broker and
  every method keeps it, whatever the listeners do. Subscribing a listener that is already
  in the list leaves the list as it is, so a listener subscribed twice is called once.
\<close>

theorem listeners_stay_unique:
  "unique_listeners new_broker \<and>
   (unique_listeners s \<longrightarrow>
      (subscribe n P e f s = Some (r, s') \<longrightarrow> unique_listeners s') \<and>
      (subscribeOnce n P e f s = Some (r, s') \<longrightarrow> unique_listeners s') \<and>
      (unsubscribe n P e f s = Some (r, s') \<longrightarrow> unique_listeners s') \<and>
      (unsubscribeAll n P e s = Some (r, s') \<longrightarrow> unique_listeners s') \<and>
      (emit n P e args s = Some (r, s') \<longrightarrow> unique_listeners s') \<and>
      (g \<in> set (info s name) \<longrightarrow> uniq (concat_value (info s name) g) = info s name))"
proof -
  have "unique_listeners new_broker"
    by (simp add: unique_listeners_def info_def new_broker_def)
  moreover have "uniq (concat_value (info s name) g) = info s name"
    if "unique_listeners s" "g \<in> set (info s name)"
    using that by (simp add: unique_listeners_def uniq_concat_value)
  ultimately show ?thesis
    by (auto simp: subscribe_def subscribeOnce_def unsubscribe_def unsubscribeAll_def
        dest: on_keeps[OF emit_keeps] one_keeps[OF emit_keeps] off_keeps[OF emit_keeps]
          removeAll_keeps[OF emit_keeps] keepsD[OF emit_keeps])
qed

theorem listeners_stay_unique_witness:
  "unique_listeners new_broker \<and> unique_listeners twice \<and>
   info twice ''event'' = [User 1] \<and>
   uniq (concat_value (info twice ''event'') (User 1)) = [User 1] \<and>
   (\<exists>r s'. emit 1 quiet (VStr ''event'') [] twice = Some (r, s') \<and>
      round_calls 2 (since twice s') = [Called (Some 2) (User 1) ThisBroker []] \<and>
      unique_listeners s') \<and>
   (\<exists>r s3 r' s4 r'' s5.
      subscribeOnce 1 quiet (VStr ''event'') (VFn (User 2)) twice = Some (r, s3) \<and>
      unique_listeners s3 \<and>
      unsubscribe 1 quiet (VStr ''event'') (VFn (User 1)) s3 = Some (r', s4) \<and>
      unique_listeners s4 \<and>
      unsubscribeAll 1 quiet (VStr ''event'') s4 = Some (r'', s5) \<and>
      unique_listeners s5)"
proof -
  let ?sub = "subscribe 1 quiet (VStr ''event'') (VFn (User 1))"
  let ?once = "after ?sub new_broker"
  let ?one = "subscribeOnce 1 quiet (VStr ''event'') (VFn (User 2))"
  let ?s3 = "after ?one twice"
  let ?off = "unsubscribe 1 quiet (VStr ''event'') (VFn (User 1))"
  let ?s4 = "after ?off ?s3"
  let ?all = "unsubscribeAll 1 quiet (VStr ''event'')"
  let ?s5 = "after ?all ?s4"
  have "returns ?sub new_broker" by code_simp
  then obtain r1 where 1: "?sub new_broker = Some (r1, ?once)" by (auto dest: returnsD)
  have "returns ?sub ?once" by code_simp
  then obtain r2 where 2: "?sub ?once = Some (r2, twice)"
    unfolding twice_def by (auto dest: returnsD)
  have "returns (emit 1 quiet (VStr ''event'') []) twice" by code_simp
  then obtain r3 where 3: "emit 1 quiet (VStr ''event'') [] twice =
      Some (r3, after (emit 1 quiet (VStr ''event'') []) twice)"
    by (auto dest: returnsD)
  have "returns ?one twice" by code_simp
  then obtain r4 where 4: "?one twice = Some (r4, ?s3)" by (auto dest: returnsD)
  have "returns ?off ?s3" by code_simp
  then obtain r5 where 5: "?off ?s3 = Some (r5, ?s4)" by (auto dest: returnsD)
  have "returns ?all ?s4" by code_simp
  then obtain r6 where 6: "?all ?s4 = Some (r6, ?s5)" by (auto dest: returnsD)
  have t: "round_calls 2 (since twice (after (emit 1 quiet (VStr ''event'') []) twice)) =
      [Called (Some 2) (User 1) ThisBroker []]"
    by code_simp
  have i: "info twice ''event'' = [User 1]" by code_simp
  have u0: "unique_listeners new_broker"
    using listeners_stay_unique[of new_broker] by simp
  have u1: "unique_listeners ?once"
    using listeners_stay_unique[of new_broker 1 quiet "VStr ''event''" "VFn (User 1)" r1 ?once]
      1 u0 by simp
  have u2: "unique_listeners twice"
    using listeners_stay_unique[of ?once 1 quiet "VStr ''event''" "VFn (User 1)" r2 twice]
      2 u1 by simp
  have u3: "unique_listeners (after (emit 1 quiet (VStr ''event'') []) twice)"
    using listeners_stay_unique[of twice 1 quiet "VStr ''event''" _ r3
       "after (emit 1 quiet (VStr ''event'') []) twice" "[]"]
      3 u2 by simp
  have d: "uniq (concat_value (info twice ''event'') (User 1)) = [User 1]"
    using listeners_stay_unique[of twice _ _ _ _ _ _ _ "User 1" "''event''"] u2
    by (simp add: i)
  have u4: "unique_listeners ?s3"
    using listeners_stay_unique[of twice 1 quiet "VStr ''event''" "VFn (User 2)" r4 ?s3]
      4 u2 by simp
  have u5: "unique_listeners ?s4"
    using listeners_stay_unique[of ?s3 1 quiet "VStr ''event''" "VFn (User 1)" r5 ?s4]
      5 u4 by simp
  have u6: "unique_listeners ?s5"
    using listeners_stay_unique[of ?s4 1 quiet "VStr ''event''" _ r6 ?s5]
      6 u5 by simp
  from u0 u2 i d 3 t u3 4 u4 5 u5 6 u6 show ?thesis by blast
qed

text \<open>
  C6 fails on the code for \<^verbatim>\<open>one\<close>, which does not check its callback:
  \<^verbatim>\<open>one('event', null)\<close> returns a function, registers \<^verbatim>\<open>single\<close> and emits
  \<^verbatim>\<open>listenerAdded\<close>, where \<^verbatim>\<open>on('event', null)\<close> throws.
\<close>

theorem once_accepts_any_callback:
  "\<not> isValidCallback VNull \<and>
   map_option fst (subscribeOnce 1 quiet (VStr ''event'') VNull new_broker) =
     Some (Inr (VFn (Unsub 1 (VStr ''event'') (VFn (Single 0 (VStr ''event'') VNull))))) \<and>
   info (after (subscribeOnce 1 quiet (VStr ''event'') VNull) new_broker) ''event'' =
     [Single 0 (VStr ''event'') VNull] \<and>
   trace (after (subscribeOnce 1 quiet (VStr ''event'') VNull) new_broker) =
     [Emitted 0 ADDED [Payload (VStr ''event'') (VFn (Single 0 (VStr ''event'') VNull))]] \<and>
   map_option fst (subscribe 1 quiet (VStr ''event'') VNull new_broker) =
     Some (Inl (VTypeError CALLBACK_ERROR))"
  by code_simp

text \<open>
  C7. For a valid event name \<open>e\<close> and a function \<open>f\<close>: when \<open>f\<close> is not in the list of \<open>e\<close>,
  \<^verbatim>\<open>unsubscribe(e, f)\<close> returns with the broker unchanged and emits nothing. When \<open>f\<close> is in
  the list, it takes \<open>f\<close> out and is from then on the emission of \<^verbatim>\<open>listenerRemoved\<close> with
  \<^verbatim>\<open>{event: e, callback: f}\<close>, which is the first thing the trace gains; with nobody
  listening to \<^verbatim>\<open>listenerRemoved\<close> that emission is all that happens.
\<close>

theorem unsubscribe_event_iff_removed:
  assumes "isValidEvent (VStr e)"
  shows "(f \<notin> set (info s e) \<longrightarrow>
      unsubscribe n P (VStr e) (VFn f) s = Some (Inr VUndefined, s)) \<and>
    (f \<in> set (info s e) \<longrightarrow>
      unsubscribe n P (VStr e) (VFn f) s =
        emit n P (VStr REMOVED) [Payload (VStr e) (VFn f)]
          (s\<lparr>registry := (registry s)(e :=
             if without (info s e) f = [] then None else Some (without (info s e) f))\<rparr>) \<and>
      (unsubscribe n P (VStr e) (VFn f) s = Some (r, s') \<longrightarrow>
         r = Inr VUndefined \<and>
         (\<exists>rest. since s s' = Emitted (emits s) REMOVED [Payload (VStr e) (VFn f)] # rest)) \<and>
      (info s REMOVED = [] \<longrightarrow>
         (\<exists>u. unsubscribe (Suc m) P (VStr e) (VFn f) s = Some (Inr VUndefined, u) \<and>
            info u e = without (info s e) f \<and>
            since s u = [Emitted (emits s) REMOVED [Payload (VStr e) (VFn f)]])))"
proof (intro conjI impI)
  assume "f \<notin> set (info s e)"
  then have "without (info s e) f = info s e" by (auto simp: without_def filter_id_conv)
  then show "unsubscribe n P (VStr e) (VFn f) s = Some (Inr VUndefined, s)"
    using assms by (simp add: unsubscribe_def off_def throwIfNot_def isValidCallback_def)
next
  let ?s1 = "s\<lparr>registry := (registry s)(e :=
             if without (info s e) f = [] then None else Some (without (info s e) f))\<rparr>"
  assume m: "f \<in> set (info s e)"
  then have "length (filter (\<lambda>y. y \<noteq> f) (info s e)) < length (info s e)"
    by (intro length_filter_less[of f]) auto
  then have l: "length (info s e) \<noteq> length (without (info s e) f)" by (simp add: without_def)
  have "\<And>k. off (emit k P) (VStr e) (VFn f) s =
     (case emit k P (VStr REMOVED) [Payload (VStr e) (VFn f)] ?s1 of None \<Rightarrow> None
     | Some (Inl x, s2) \<Rightarrow> Some (Inl x, s2)
     | Some (Inr v, s2) \<Rightarrow> Some (Inr VUndefined, s2))"
    using assms l by (simp add: off_def throwIfNot_def isValidCallback_def Let_def)
  then have eq: "\<And>k. unsubscribe k P (VStr e) (VFn f) s =
      emit k P (VStr REMOVED) [Payload (VStr e) (VFn f)] ?s1"
    by (simp add: unsubscribe_def emit_as_fire[OF valid_events(3)])
  show "unsubscribe n P (VStr e) (VFn f) s =
      emit n P (VStr REMOVED) [Payload (VStr e) (VFn f)] ?s1"
    by (rule eq)
  {
    assume "unsubscribe n P (VStr e) (VFn f) s = Some (r, s')"
    then have a: "emit n P (VStr REMOVED) [Payload (VStr e) (VFn f)] ?s1 = Some (r, s')"
      by (simp add: eq)
    from emit_valid_result[OF a valid_events(3)]
    show "r = Inr VUndefined" .
    from emit_emitted[OF a valid_events(3)]
    show "\<exists>rest. since s s' = Emitted (emits s) REMOVED [Payload (VStr e) (VFn f)] # rest"
      by simp
  }
  assume n: "info s REMOVED = []"
  with m have ne: "e \<noteq> REMOVED" by auto
  have i: "info ?s1 e = without (info s e) f" by (simp add: info_def)
  have "info ?s1 REMOVED = []" using n ne by (simp add: info_def)
  from emit_no_listeners[OF valid_events(3) this, of m P "[Payload (VStr e) (VFn f)]"] i
  show "\<exists>u. unsubscribe (Suc m) P (VStr e) (VFn f) s = Some (Inr VUndefined, u) \<and>
            info u e = without (info s e) f \<and>
            since s u = [Emitted (emits s) REMOVED [Payload (VStr e) (VFn f)]]"
    unfolding eq by (simp add: since_def del: emit.simps)
qed

theorem unsubscribe_event_iff_removed_witness:
  "isValidEvent (VStr ''event'') \<and>
   User 3 \<notin> set (info two_listeners ''event'') \<and>
   unsubscribe 1 quiet (VStr ''event'') (VFn (User 3)) two_listeners =
     Some (Inr VUndefined, two_listeners) \<and>
   User 1 \<in> set (info two_listeners ''event'') \<and>
   info two_listeners REMOVED = [] \<and>
   (\<exists>u. unsubscribe 1 quiet (VStr ''event'') (VFn (User 1)) two_listeners =
         Some (Inr VUndefined, u) \<and>
       unsubscribe 1 quiet (VStr ''event'') (VFn (User 1)) two_listeners =
         emit 1 quiet (VStr REMOVED) [Payload (VStr ''event'') (VFn (User 1))]
           (two_listeners\<lparr>registry := (registry two_listeners)(''event'' \<mapsto> [User 2])\<rparr>) \<and>
       info u ''event'' = [User 2] \<and>
       since two_listeners u =
         [Emitted 2 REMOVED [Payload (VStr ''event'') (VFn (User 1))]])"
proof -
  have v: "isValidEvent (VStr ''event'')" by code_simp
  have l: "info two_listeners ''event'' = [User 1, User 2]" by code_simp
  have n: "info two_listeners REMOVED = []" by code_simp
  have e: "emits two_listeners = 2" by code_simp
  have w: "without [User 1, User 2] (User 1) = [User 2]" by (simp add: without_def)
  from unsubscribe_event_iff_removed[OF v, of "User 3" two_listeners 1 quiet]
  have a: "unsubscribe 1 quiet (VStr ''event'') (VFn (User 3)) two_listeners =
     Some (Inr VUndefined, two_listeners)"
    by (simp add: l)
  note T = unsubscribe_event_iff_removed[OF v, of "User 1" two_listeners 1 quiet _ _ 0]
  have m: "User 1 \<in> set (info two_listeners ''event'')" by (simp add: l)
  note T2 = T[THEN conjunct2, THEN mp, OF m]
  from T2[THEN conjunct2, THEN conjunct2, THEN mp, OF n]
  have "\<exists>u. unsubscribe (Suc 0) quiet (VStr ''event'') (VFn (User 1)) two_listeners =
         Some (Inr VUndefined, u) \<and>
       info u ''event'' = without (info two_listeners ''event'') (User 1) \<and>
       since two_listeners u =
         [Emitted (emits two_listeners) REMOVED [Payload (VStr ''event'') (VFn (User 1))]]" .
  then have "\<exists>u. unsubscribe 1 quiet (VStr ''event'') (VFn (User 1)) two_listeners =
         Some (Inr VUndefined, u) \<and>
       info u ''event'' = [User 2] \<and>
       since two_listeners u =
         [Emitted 2 REMOVED [Payload (VStr ''event'') (VFn (User 1))]]"
    by (simp add: l e without_def)
  then obtain u where
    u: "unsubscribe 1 quiet (VStr ''event'') (VFn (User 1)) two_listeners =
         Some (Inr VUndefined, u)"
    and i: "info u ''event'' = [User 2]"
    and t: "since two_listeners u =
         [Emitted 2 REMOVED [Payload (VStr ''event'') (VFn (User 1))]]"
    by blast
  from T2[of "Inr VUndefined" u, THEN conjunct2, THEN conjunct1, THEN mp, OF u]
  have "\<exists>rest. since two_listeners u =
      Emitted 2 REMOVED [Payload (VStr ''event'') (VFn (User 1))] # rest"
    by (simp add: e)
  from T2[THEN conjunct1]
  have q: "unsubscribe 1 quiet (VStr ''event'') (VFn (User 1)) two_listeners =
         emit 1 quiet (VStr REMOVED) [Payload (VStr ''event'') (VFn (User 1))]
           (two_listeners\<lparr>registry := (registry two_listeners)(''event'' \<mapsto> [User 2])\<rparr>)"
    by (simp only: l w) simp
  have nm: "User 3 \<notin> set (info two_listeners ''event'')" by (simp add: l)
  from v nm a m n u q i t show ?thesis by blast
qed







text \<open>
  C10. When the callback given to \<^verbatim>\<open>one\<close> throws, the call of \<^verbatim>\<open>single\<close> ends there, with the
  broker as the callback left it: \<^verbatim>\<open>off\<close> is not called (it is when the callback returns).
  A callback that throws at once leaves the registry as it was, so \<^verbatim>\<open>single\<close> is still
  registered, and as long as it is, every emission of the event calls it again.
\<close>

theorem once_wrapper_stays_when_callback_throws:
  "(invoke fire P None ThisUndefined g [ev, VFn g]
       (s\<lparr>trace := trace s @ [Called tag (Single k ev (VFn g)) this args]\<rparr>) =
       Some (Inl x, s1) \<longrightarrow>
     invoke fire P tag this (Single k ev (VFn g)) args s = Some (Inl x, s1)) \<and>
   (invoke fire P None ThisUndefined g [ev, VFn g]
       (s\<lparr>trace := trace s @ [Called tag (Single k ev (VFn g)) this args]\<rparr>) =
       Some (Inr v, s1) \<longrightarrow>
     invoke fire P tag this (Single k ev (VFn g)) args s =
       off fire ev (VFn (Single k ev (VFn g))) s1) \<and>
   (P i [ev, VFn (User i)] = Throw x \<longrightarrow>
     invoke fire P tag this (Single k ev (VFn (User i))) args s =
       Some (Inl x, s\<lparr>trace := trace s @
         [Called tag (Single k ev (VFn (User i))) this args,
          Called None (User i) ThisUndefined [ev, VFn (User i)]]\<rparr>)) \<and>
   (isValidEvent (VStr e) \<longrightarrow> Single k ev (VFn g) \<in> set (info t e) \<longrightarrow>
     emit n P (VStr e) args t = Some (r, t') \<longrightarrow>
     Called (Some (emits t)) (Single k ev (VFn g)) ThisBroker args \<in> set (since t t'))"
proof (intro conjI impI)
  assume "isValidEvent (VStr e)" and m: "Single k ev (VFn g) \<in> set (info t e)"
    and "emit n P (VStr e) args t = Some (r, t')"
  from emit_round[OF this(3,1)]
  have "round_calls (emits t) (since t t') =
      map (\<lambda>f. Called (Some (emits t)) f ThisBroker args) (info t e)"
    by simp
  with m have "Called (Some (emits t)) (Single k ev (VFn g)) ThisBroker args
      \<in> set (round_calls (emits t) (since t t'))"
    by simp
  then show "Called (Some (emits t)) (Single k ev (VFn g)) ThisBroker args \<in> set (since t t')"
    by (simp add: round_calls_def)
qed simp_all

theorem once_wrapper_stays_when_callback_throws_witness:
  "(\<exists>s1. invoke (emit 1 always_throwing) always_throwing (Some 0) ThisBroker
        (Single 0 (VStr ''event'') (VFn (User 1))) [VNum 7] throwing_once =
        Some (Inl (VError ''boom''), s1) \<and>
      info s1 ''event'' = [Single 0 (VStr ''event'') (VFn (User 1))]) \<and>
   (\<exists>s1. invoke (emit 1 quiet) quiet None ThisUndefined (User 1)
        [VStr ''event'', VFn (User 1)]
        (once_subscribed\<lparr>trace := trace once_subscribed @
           [Called (Some 0) (Single 0 (VStr ''event'') (VFn (User 1))) ThisBroker [VNum 7]]\<rparr>) =
        Some (Inr VUndefined, s1) \<and>
      invoke (emit 1 quiet) quiet (Some 0) ThisBroker
        (Single 0 (VStr ''event'') (VFn (User 1))) [VNum 7] once_subscribed =
        off (emit 1 quiet) (VStr ''event'') (VFn (Single 0 (VStr ''event'') (VFn (User 1)))) s1) \<and>
   isValidEvent (VStr ''event'') \<and>
   Single 0 (VStr ''event'') (VFn (User 1)) \<in> set (info throwing_once ''event'') \<and>
   (\<exists>r t'. emit 2 always_throwing (VStr ''event'') [VNum 7] throwing_once = Some (r, t') \<and>
      Called (Some 1) (Single 0 (VStr ''event'') (VFn (User 1))) ThisBroker [VNum 7]
        \<in> set (since throwing_once t') \<and>
      info t' ''event'' = [Single 0 (VStr ''event'') (VFn (User 1))]) \<and>
   info flaky_once ''event'' = [Single 0 (VStr ''event'') (VFn (User 1))] \<and>
   since flaky_once (after (emit 2 flaky (VStr ''event'') [VNum 7]) flaky_once) =
     [Emitted 1 ''event'' [VNum 7],
      Called (Some 1) (Single 0 (VStr ''event'') (VFn (User 1))) ThisBroker [VNum 7],
      Called None (User 1) ThisUndefined [VStr ''event'', VFn (User 1)],
      Emitted 2 ERROR [Failure (VStr ''event'')
        (VFn (Single 0 (VStr ''event'') (VFn (User 1)))) (VError ''first call'')]] \<and>
   info (after (emit 2 flaky (VStr ''event'') [VNum 7]) flaky_once) ''event'' =
     [Single 0 (VStr ''event'') (VFn (User 1))] \<and>
   since (after (emit 2 flaky (VStr ''event'') [VNum 7]) flaky_once)
     (after (emit 2 flaky (VStr ''event'') [VNum 8])
       (after (emit 2 flaky (VStr ''event'') [VNum 7]) flaky_once)) =
     [Emitted 3 ''event'' [VNum 8],
      Called (Some 3) (Single 0 (VStr ''event'') (VFn (User 1))) ThisBroker [VNum 8],
      Called None (User 1) ThisUndefined [VStr ''event'', VFn (User 1)],
      Emitted 4 REMOVED [Payload (VStr ''event'')
        (VFn (Single 0 (VStr ''event'') (VFn (User 1))))]] \<and>
   info (after (emit 2 flaky (VStr ''event'') [VNum 8])
       (after (emit 2 flaky (VStr ''event'') [VNum 7]) flaky_once)) ''event'' = []"
proof -
  let ?w = "Single 0 (VStr ''event'') (VFn (User 1))"
  let ?t0 = "throwing_once\<lparr>trace := trace throwing_once @
     [Called (Some 0) ?w ThisBroker [VNum 7]]\<rparr>"
  let ?s1 = "throwing_once\<lparr>trace := trace throwing_once @
     [Called (Some 0) ?w ThisBroker [VNum 7],
      Called None (User 1) ThisUndefined [VStr ''event'', VFn (User 1)]]\<rparr>"
  let ?q0 = "once_subscribed\<lparr>trace := trace once_subscribed @
     [Called (Some 0) ?w ThisBroker [VNum 7]]\<rparr>"
  let ?q1 = "once_subscribed\<lparr>trace := trace once_subscribed @
     [Called (Some 0) ?w ThisBroker [VNum 7],
      Called None (User 1) ThisUndefined [VStr ''event'', VFn (User 1)]]\<rparr>"
  let ?em = "emit 2 always_throwing (VStr ''event'') [VNum 7]"
  have v: "isValidEvent (VStr ''event'')" by code_simp
  have l: "info throwing_once ''event'' = [?w]" by code_simp
  have e: "emits throwing_once = 1" by code_simp
  have p: "always_throwing 1 [VStr ''event'', VFn (User 1)] = Throw (VError ''boom'')"
    by (simp add: always_throwing_def)
  have g1: "invoke (emit 1 always_throwing) always_throwing None ThisUndefined (User 1)
      [VStr ''event'', VFn (User 1)] ?t0 = Some (Inl (VError ''boom''), ?s1)"
    by (simp add: always_throwing_def)
  have g2: "invoke (emit 1 quiet) quiet None ThisUndefined (User 1)
      [VStr ''event'', VFn (User 1)] ?q0 = Some (Inr VUndefined, ?q1)"
    by (simp add: quiet_def)
  note T = once_wrapper_stays_when_callback_throws[where fire = "emit 1 always_throwing"
      and P = always_throwing and g = "User 1" and ev = "VStr ''event''" and s = throwing_once
      and tag = "Some 0" and k = 0 and this = ThisBroker and args = "[VNum 7]"
      and x = "VError ''boom''" and ?s1.0 = ?s1 and i = 1 and e = "''event''"
      and t = throwing_once]
  from T[THEN conjunct1, THEN mp, OF g1]
  have a: "invoke (emit 1 always_throwing) always_throwing (Some 0) ThisBroker ?w [VNum 7]
      throwing_once = Some (Inl (VError ''boom''), ?s1)" .
  from T[THEN conjunct2, THEN conjunct2, THEN conjunct1, THEN mp, OF p]
  have "invoke (emit 1 always_throwing) always_throwing (Some 0) ThisBroker ?w [VNum 7]
      throwing_once = Some (Inl (VError ''boom''), ?s1)" .
  have a': "info ?s1 ''event'' = [?w]" by (simp add: l)
  from once_wrapper_stays_when_callback_throws[where fire = "emit 1 quiet"
      and P = quiet and g = "User 1" and ev = "VStr ''event''" and s = once_subscribed
      and tag = "Some 0" and k = 0 and this = ThisBroker and args = "[VNum 7]"
      and ?s1.0 = ?q1 and v = VUndefined, THEN conjunct2, THEN conjunct1, THEN mp, OF g2]
  have b: "invoke (emit 1 quiet) quiet (Some 0) ThisBroker ?w [VNum 7] once_subscribed =
      off (emit 1 quiet) (VStr ''event'') (VFn ?w) ?q1" .
  have m: "?w \<in> set (info throwing_once ''event'')" by (simp add: l)
  have "returns ?em throwing_once" by code_simp
  then obtain r where h: "?em throwing_once = Some (r, after ?em throwing_once)"
    by (auto dest: returnsD)
  from T[where n = 2 and r = r and t' = "after ?em throwing_once",
      THEN conjunct2, THEN conjunct2, THEN conjunct2, THEN mp, OF v, THEN mp, OF m,
      THEN mp, OF h]
  have c: "Called (Some 1) ?w ThisBroker [VNum 7] \<in> set (since throwing_once (after ?em throwing_once))"
    by (simp add: e)
  have i: "info (after ?em throwing_once) ''event'' = [?w]" by code_simp
  have f1: "info flaky_once ''event'' = [?w]" by code_simp
  have f2: "since flaky_once (after (emit 2 flaky (VStr ''event'') [VNum 7]) flaky_once) =
     [Emitted 1 ''event'' [VNum 7],
      Called (Some 1) ?w ThisBroker [VNum 7],
      Called None (User 1) ThisUndefined [VStr ''event'', VFn (User 1)],
      Emitted 2 ERROR [Failure (VStr ''event'') (VFn ?w) (VError ''first call'')]]"
    by code_simp
  have f3: "info (after (emit 2 flaky (VStr ''event'') [VNum 7]) flaky_once) ''event'' = [?w]"
    by code_simp
  have f4: "since (after (emit 2 flaky (VStr ''event'') [VNum 7]) flaky_once)
     (after (emit 2 flaky (VStr ''event'') [VNum 8])
       (after (emit 2 flaky (VStr ''event'') [VNum 7]) flaky_once)) =
     [Emitted 3 ''event'' [VNum 8],
      Called (Some 3) ?w ThisBroker [VNum 8],
      Called None (User 1) ThisUndefined [VStr ''event'', VFn (User 1)],
      Emitted 4 REMOVED [Payload (VStr ''event'') (VFn ?w)]]"
    by code_simp
  have f5: "info (after (emit 2 flaky (VStr ''event'') [VNum 8])
       (after (emit 2 flaky (VStr ''event'') [VNum 7]) flaky_once)) ''event'' = []"
    by code_simp
  from a a' g2 b v m h c i f1 f2 f3 f4 f5 show ?thesis by blast
qed

end
